theory Spec2Isabelle
  imports Main
begin

section \<open>Block resolver: \<open>find_last_block_of_day\<close>\<close>

text \<open>
  Both \<open>kava_balance_checker.py\<close> and \<open>wkava_balance_checker.py\<close> carry the same
  function. Inside the loop the only contact with the node is the \<open>try\<close> block around
  \<open>get_block_by_number(mid)\<close> and \<open>int(block["timestamp"], 16)\<close>. What that block
  does at a height is one of three things, and the loop looks at nothing else:
  \<^item> \<open>Failed\<close>: any exception (the RPC call raised, the block has no \<open>timestamp\<close> key,
    the timestamp is not hexadecimal); the handler prints a warning and sets
    \<open>right = mid - 1\<close>;
  \<^item> \<open>Absent\<close>: the call returned \<open>None\<close>;
  \<^item> \<open>Block ts\<close>: a block whose timestamp parses to \<open>ts\<close>.
  The binary search never probes a height twice, so the node is a function from heights
  to probe outcomes.
\<close>

datatype probe = Failed | Absent | Block int

type_synonym probe_oracle = "int \<Rightarrow> probe"

record search_state =
  left :: int
  right :: int
  result_block :: "int option"

text \<open>\<open>mid = (left + right) // 2\<close>; Python's floor division is \<open>div\<close> on \<open>int\<close>.\<close>

definition mid :: "search_state \<Rightarrow> int" where
  "mid s = (left s + right s) div 2"

text \<open>One pass through the body of \<open>while left <= right\<close>.\<close>

definition loop_body :: "probe_oracle \<Rightarrow> int \<Rightarrow> search_state \<Rightarrow> search_state" where
  "loop_body get_block target_timestamp s =
     (case get_block (mid s) of
        Failed \<Rightarrow> s\<lparr>right := mid s - 1\<rparr>
      | Absent \<Rightarrow> s\<lparr>right := mid s - 1\<rparr>
      | Block block_timestamp \<Rightarrow>
          if block_timestamp \<le> target_timestamp
          then s\<lparr>left := mid s + 1, result_block := Some (mid s)\<rparr>
          else s\<lparr>right := mid s - 1\<rparr>)"

text \<open>The number of heights left in the closed interval \<open>[left, right]\<close>.\<close>

definition interval_size :: "search_state \<Rightarrow> nat" where
  "interval_size s = nat (right s - left s + 1)"

function search_loop :: "probe_oracle \<Rightarrow> int \<Rightarrow> search_state \<Rightarrow> search_state" where
  "search_loop get_block target_timestamp s =
     (if left s \<le> right s
      then search_loop get_block target_timestamp (loop_body get_block target_timestamp s)
      else s)"
  by pat_completeness auto
termination
  by (relation "measure (\<lambda>(g, t, s). interval_size s)") (auto simp: loop_body_def interval_size_def mid_def split: probe.splits)

text \<open>The defining equation unfolds without end; it is applied by hand.\<close>

declare search_loop.simps [simp del]

definition initial_state :: "int \<Rightarrow> search_state" where
  "initial_state latest_block = \<lparr>left = 0, right = latest_block, result_block = None\<rparr>"

text \<open>
  \<open>latest_block = self.rpc_client.get_block_number()\<close> runs before the loop and outside
  any handler: when it raises, the function raises (\<open>Inl\<close>); otherwise the loop runs on
  \<open>[0, latest_block]\<close> and the function returns \<open>result_block\<close>.
\<close>

definition find_last_block_of_day ::
  "'e + int \<Rightarrow> probe_oracle \<Rightarrow> int \<Rightarrow> 'e + int option" where
  "find_last_block_of_day get_block_number get_block target_timestamp =
     (case get_block_number of
        Inl e \<Rightarrow> Inl e
      | Inr latest_block \<Rightarrow>
          Inr (result_block (search_loop get_block target_timestamp (initial_state latest_block))))"

subsection \<open>Vocabulary for the properties of the search\<close>

text \<open>
  A height qualifies when its probe succeeds with a block whose timestamp is at most the
  target: the only case in which the loop assigns \<open>result_block\<close>.
\<close>

definition qualifies :: "probe_oracle \<Rightarrow> int \<Rightarrow> int \<Rightarrow> bool" where
  "qualifies get_block target_timestamp h =
     (case get_block h of Block ts \<Rightarrow> ts \<le> target_timestamp | _ \<Rightarrow> False)"

text \<open>The heights the loop probes from a state on, in the order of the probes.\<close>

function probed_heights :: "probe_oracle \<Rightarrow> int \<Rightarrow> search_state \<Rightarrow> int list" where
  "probed_heights get_block target_timestamp s =
     (if left s \<le> right s
      then mid s # probed_heights get_block target_timestamp (loop_body get_block target_timestamp s)
      else [])"
  by pat_completeness auto
termination
  by (relation "measure (\<lambda>(g, t, s). interval_size s)") (auto simp: loop_body_def interval_size_def mid_def split: probe.splits)

declare probed_heights.simps [simp del]

text \<open>
  The states at the head of the loop, each with the heights probed before it:
  \<open>at_loop_head g t latest ps s\<close> says that the run started with \<open>latest_block = latest\<close>
  is at the test \<open>left <= right\<close> in state \<open>s\<close> after probing \<open>ps\<close>.
\<close>

inductive at_loop_head :: "probe_oracle \<Rightarrow> int \<Rightarrow> int \<Rightarrow> int list \<Rightarrow> search_state \<Rightarrow> bool"
  for get_block :: probe_oracle and target_timestamp :: int and latest_block :: int where
  entry: "at_loop_head get_block target_timestamp latest_block [] (initial_state latest_block)"
| iteration: "at_loop_head get_block target_timestamp latest_block ps s \<Longrightarrow> left s \<le> right s \<Longrightarrow>
     at_loop_head get_block target_timestamp latest_block (ps @ [mid s])
       (loop_body get_block target_timestamp s)"

text \<open>The highest qualifying height among those probed, if any.\<close>

definition best_probed :: "probe_oracle \<Rightarrow> int \<Rightarrow> int list \<Rightarrow> int option" where
  "best_probed get_block target_timestamp ps =
     (case filter (qualifies get_block target_timestamp) ps of
        [] \<Rightarrow> None
      | q # qs \<Rightarrow> Some (Max (set (q # qs))))"

text \<open>
  The loop with a bound on the number of iterations: \<open>None\<close> when the bound is used up
  before \<open>left > right\<close>.
\<close>

fun search_fuel :: "nat \<Rightarrow> probe_oracle \<Rightarrow> int \<Rightarrow> search_state \<Rightarrow> search_state option" where
  "search_fuel 0 get_block target_timestamp s =
     (if left s \<le> right s then None else Some s)"
| "search_fuel (Suc n) get_block target_timestamp s =
     (if left s \<le> right s
      then search_fuel n get_block target_timestamp (loop_body get_block target_timestamp s)
      else Some s)"

text \<open>
  A chain on which every height in \<open>[0, latest]\<close> answers with a block, and on which
  timestamps never decrease as the height grows.
\<close>

definition total_upto :: "probe_oracle \<Rightarrow> int \<Rightarrow> bool" where
  "total_upto get_block latest =
     list_all (\<lambda>h. case get_block h of Block ts \<Rightarrow> True | _ \<Rightarrow> False) [0..latest]"

definition monotone_upto :: "probe_oracle \<Rightarrow> int \<Rightarrow> bool" where
  "monotone_upto get_block latest =
     list_all (\<lambda>i. list_all (\<lambda>j.
         case (get_block i, get_block j) of (Block ti, Block tj) \<Rightarrow> ti \<le> tj | _ \<Rightarrow> True)
       [i..latest]) [0..latest]"

text \<open>The mock chain of the end-to-end scenario: the block at height \<open>h\<close> has timestamp \<open>h * 1000\<close>.\<close>

definition mock_chain :: probe_oracle where
  "mock_chain h = Block (h * 1000)"

section \<open>RPC gateway: \<open>KavaRPCClient._make_rpc_call\<close>\<close>

text \<open>
  A value as \<open>json.loads\<close> returns it. An object is a Python \<open>dict\<close>, written as an
  association list in which the first binding of a key is the one the dict holds.
  Numbers that are not integers play no part in this program.
\<close>

datatype json =
    JNull
  | JBool bool
  | JNum int
  | JStr string
  | JArr "json list"
  | JObj "(string \<times> json) list"

text \<open>
  What the statement
  \<^verbatim>\<open>with urllib.request.urlopen(req, timeout=30, context=ssl_context) as response:
      result = json.loads(response.read().decode('utf-8'))\<close>
  does: it raises \<open>urllib.error.URLError\<close> (or a subclass), it raises
  \<open>json.JSONDecodeError\<close>, it raises some other exception, or it binds \<open>result\<close>.
\<close>

datatype transport_outcome =
    RaisesURLError string
  | RaisesJSONDecodeError string
  | RaisesOther string
  | Loads json

text \<open>
  The exceptions that leave \<open>_make_rpc_call\<close>. The first three are the plain
  \<open>Exception\<close>s the function raises itself, told apart by their message:
  \<open>"Network error: ..."\<close>, \<open>"Invalid JSON response: ..."\<close> and \<open>"RPC error: ..."\<close>.
  \<open>KeyError\<close> and \<open>TypeError\<close> come from the subscripts and the \<open>in\<close> test and
  meet no handler; \<open>Propagated\<close> is any other exception of the transport, which no
  \<open>except\<close> clause names either.
\<close>

datatype rpc_exception =
    NetworkError string
  | InvalidJSONResponse string
  | RPCError json
  | KeyError string
  | TypeError
  | Propagated string

text \<open>\<open>needle in haystack\<close> on two \<open>str\<close>: a contiguous substring.\<close>

fun str_contains :: "string \<Rightarrow> string \<Rightarrow> bool" where
  "str_contains needle [] = (needle = [])"
| "str_contains needle (c # cs) =
     (take (length needle) (c # cs) = needle \<or> str_contains needle cs)"

text \<open>
  \<open>key in result\<close> for a \<open>str\<close> key: membership of the key in a dict, of an equal
  element in a list, of a substring in a string; \<open>TypeError\<close> on \<open>None\<close>, a number or
  a boolean, which are not iterable.
\<close>

fun py_in :: "string \<Rightarrow> json \<Rightarrow> rpc_exception + bool" where
  "py_in k (JObj kvs) = Inr (k \<in> set (map fst kvs))"
| "py_in k (JArr xs) = Inr (JStr k \<in> set xs)"
| "py_in k (JStr s) = Inr (str_contains k s)"
| "py_in k _ = Inl TypeError"

text \<open>
  \<open>result[key]\<close> for a \<open>str\<close> key: the value in a dict, \<open>KeyError\<close> when the key is
  missing, \<open>TypeError\<close> on every other value.
\<close>

fun py_getitem :: "json \<Rightarrow> string \<Rightarrow> rpc_exception + json" where
  "py_getitem (JObj kvs) k = (case map_of kvs k of None \<Rightarrow> Inl (KeyError k) | Some v \<Rightarrow> Inr v)"
| "py_getitem _ k = Inl TypeError"

definition rpc_payload :: "string \<Rightarrow> json list \<Rightarrow> json" where
  "rpc_payload rpc_method rpc_params =
     JObj [(''jsonrpc'', JStr ''2.0''), (''method'', JStr rpc_method),
           (''params'', JArr rpc_params), (''id'', JNum 1)]"

text \<open>
  The endpoint is a function from the number of requests sent before and the payload to
  what the request does. The function takes the count of requests sent so far and returns
  the new count beside its result, so that every network call it makes is visible.
\<close>

type_synonym endpoint = "nat \<Rightarrow> json \<Rightarrow> transport_outcome"

definition make_rpc_call ::
  "endpoint \<Rightarrow> nat \<Rightarrow> string \<Rightarrow> json list \<Rightarrow> (rpc_exception + json) \<times> nat" where
  "make_rpc_call urlopen sent rpc_method rpc_params =
     (let payload = rpc_payload rpc_method rpc_params;
          answer =
            (case urlopen sent payload of
               RaisesURLError e \<Rightarrow> Inl (NetworkError e)
             | RaisesJSONDecodeError e \<Rightarrow> Inl (InvalidJSONResponse e)
             | RaisesOther e \<Rightarrow> Inl (Propagated e)
             | Loads result \<Rightarrow>
                 (case py_in ''error'' result of
                    Inl e \<Rightarrow> Inl e
                  | Inr True \<Rightarrow>
                      (case py_getitem result ''error'' of
                         Inl e \<Rightarrow> Inl e
                       | Inr err \<Rightarrow> Inl (RPCError err))
                  | Inr False \<Rightarrow> py_getitem result ''result''))
      in (answer, Suc sent))"

section \<open>Token balance: \<open>encode_balance_of_call\<close> and \<open>decode_balance_result\<close>\<close>

text \<open>
  Strings are modelled as lists of 8-bit characters and read as ASCII; the hexadecimal
  strings a node sends are ASCII.
\<close>

text \<open>\<open>str.lower()\<close>: the letters \<open>A\<close> to \<open>Z\<close> become \<open>a\<close> to \<open>z\<close>.\<close>

definition lower_char :: "char \<Rightarrow> char" where
  "lower_char c =
     (case map_of (zip ''ABCDEFGHIJKLMNOPQRSTUVWXYZ'' ''abcdefghijklmnopqrstuvwxyz'') c of
        None \<Rightarrow> c
      | Some l \<Rightarrow> l)"

definition lower :: "string \<Rightarrow> string" where
  "lower s = map lower_char s"

text \<open>
  \<open>str.zfill(width)\<close>: zeros are put on the left up to \<open>width\<close> characters, after a
  leading sign if there is one; a string that is long enough is returned as it is.
\<close>

definition zfill :: "nat \<Rightarrow> string \<Rightarrow> string" where
  "zfill width s =
     (if width \<le> length s then s
      else (case s of
              [] \<Rightarrow> replicate width (CHR ''0'')
            | c # cs \<Rightarrow>
                if c = CHR ''+'' \<or> c = CHR ''-''
                then c # replicate (width - length s) (CHR ''0'') @ cs
                else replicate (width - length s) (CHR ''0'') @ s))"

text \<open>\<open>address[2:]\<close> is \<open>drop 2\<close>: the slice does not look at the two characters it removes.\<close>

definition encode_balance_of_call :: "string \<Rightarrow> string" where
  "encode_balance_of_call address =
     (let function_selector = ''70a08231'';
          address_param = zfill 64 (lower (drop 2 address))
      in ''0x'' @ function_selector @ address_param)"

subsection \<open>\<open>int(s, 16)\<close>\<close>

text \<open>
  The built-in \<open>int\<close> with base 16 on an ASCII string: optional white space, an optional
  sign, an optional \<open>0x\<close> or \<open>0X\<close> that may be followed by one underscore, then
  hexadecimal digits with single underscores allowed between them, then optional white
  space. Anything else raises \<open>ValueError\<close> (\<open>None\<close>).
\<close>

definition py_isspace :: "char \<Rightarrow> bool" where
  "py_isspace c = (c \<in> set [CHR 0x09, CHR 0x0A, CHR 0x0B, CHR 0x0C, CHR 0x0D, CHR '' ''])"

definition digit_value :: "char \<Rightarrow> nat option" where
  "digit_value c =
     (let n = (of_char c :: nat) in
      if 48 \<le> n \<and> n \<le> 57 then Some (n - 48)
      else if 97 \<le> n \<and> n \<le> 102 then Some (n - 87)
      else if 65 \<le> n \<and> n \<le> 70 then Some (n - 55)
      else None)"

text \<open>
  The digit loop, entered after the first digit: \<open>prev\<close> is the character just read and
  \<open>acc\<close> the value so far. It stops at the first character that is neither a digit nor
  an underscore and returns the value with the unread rest; two underscores in a row or
  an underscore at the end are errors.
\<close>

fun scan_digits :: "string \<Rightarrow> char \<Rightarrow> nat \<Rightarrow> (nat \<times> string) option" where
  "scan_digits [] prev acc = (if prev = CHR ''_'' then None else Some (acc, []))"
| "scan_digits (c # cs) prev acc =
     (if c = CHR ''_'' then (if prev = CHR ''_'' then None else scan_digits cs c acc)
      else (case digit_value c of
              Some d \<Rightarrow> scan_digits cs c (16 * acc + d)
            | None \<Rightarrow> if prev = CHR ''_'' then None else Some (acc, c # cs)))"

definition strip_sign :: "string \<Rightarrow> bool \<times> string" where
  "strip_sign s =
     (case s of
        [] \<Rightarrow> (False, [])
      | c # cs \<Rightarrow> if c = CHR ''+'' then (False, cs)
                else if c = CHR ''-'' then (True, cs)
                else (False, s))"

definition strip_prefix16 :: "string \<Rightarrow> string" where
  "strip_prefix16 s =
     (case s of
        a # b # cs \<Rightarrow>
          if a = CHR ''0'' \<and> (b = CHR ''x'' \<or> b = CHR ''X'')
          then (case cs of
                  [] \<Rightarrow> cs
                | u # cs' \<Rightarrow> if u = CHR ''_'' then cs' else cs)
          else s
      | _ \<Rightarrow> s)"

definition py_int16 :: "string \<Rightarrow> int option" where
  "py_int16 s =
     (let (negative, s2) = strip_sign (dropWhile py_isspace s) in
      case strip_prefix16 s2 of
        [] \<Rightarrow> None
      | c # cs \<Rightarrow>
          (case digit_value c of
             None \<Rightarrow> None
           | Some d \<Rightarrow>
               (case scan_digits cs c d of
                  None \<Rightarrow> None
                | Some (v, rest) \<Rightarrow>
                    if list_all py_isspace rest
                    then Some (if negative then - int v else int v)
                    else None)))"

text \<open>
  \<open>decode_balance_result\<close> raises nothing of its own: its only failure is the
  \<open>ValueError\<close> of \<open>int(result, 16)\<close>.
\<close>

datatype decode_error = ValueError

definition decode_balance_result :: "string \<Rightarrow> decode_error + int" where
  "decode_balance_result result =
     (if result = ''0x'' then Inr 0
      else (case py_int16 result of None \<Rightarrow> Inl ValueError | Some n \<Rightarrow> Inr n))"

text \<open>
  The reading of the specification: a hexadecimal string is \<open>0x\<close> followed by
  hexadecimal digits, and its value is the big-endian number the digits spell.
\<close>

definition is_hex_char :: "char \<Rightarrow> bool" where
  "is_hex_char c = (c \<in> set ''0123456789abcdefABCDEF'')"

definition valid_hexadecimal :: "string \<Rightarrow> bool" where
  "valid_hexadecimal s = (take 2 s = ''0x'' \<and> list_all is_hex_char (drop 2 s))"

definition big_endian_value :: "string \<Rightarrow> nat" where
  "big_endian_value ds = foldl (\<lambda>acc c. 16 * acc + the (digit_value c)) 0 ds"

text \<open>
  "Lower-cased", for hexadecimal digits, written out on its own and not through
  \<open>str.lower()\<close>: the six letters \<open>A\<close> to \<open>F\<close> become \<open>a\<close> to \<open>f\<close>, every other
  character stays; and the 16 characters a lower-cased hexadecimal string is made of.
\<close>

definition lower_hex_digit :: "char \<Rightarrow> char" where
  "lower_hex_digit c =
     (if c = CHR ''A'' then CHR ''a'' else if c = CHR ''B'' then CHR ''b''
      else if c = CHR ''C'' then CHR ''c'' else if c = CHR ''D'' then CHR ''d''
      else if c = CHR ''E'' then CHR ''e'' else if c = CHR ''F'' then CHR ''f''
      else c)"

definition is_lower_hex_char :: "char \<Rightarrow> bool" where
  "is_lower_hex_char c = (c \<in> set ''0123456789abcdef'')"

section \<open>Date validation: \<open>validate_date\<close>\<close>

datatype timezone = UTC

record datetime =
  year :: nat
  month :: nat
  day :: nat
  hour :: nat
  minute :: nat
  second :: nat
  tzinfo :: "timezone option"

text \<open>\<open>date_obj.date()\<close>, and the order of \<open>date\<close> objects: by year, then month, then day.\<close>

definition date_of :: "datetime \<Rightarrow> nat \<times> nat \<times> nat" where
  "date_of d = (year d, month d, day d)"

fun date_gt :: "nat \<times> nat \<times> nat \<Rightarrow> nat \<times> nat \<times> nat \<Rightarrow> bool" where
  "date_gt (y1, m1, d1) (y2, m2, d2) =
     (y2 < y1 \<or> (y1 = y2 \<and> (m2 < m1 \<or> (m1 = m2 \<and> d2 < d1))))"

definition is_leap :: "nat \<Rightarrow> bool" where
  "is_leap y = (y mod 4 = 0 \<and> (y mod 100 \<noteq> 0 \<or> y mod 400 = 0))"

definition days_in_month :: "nat \<Rightarrow> nat \<Rightarrow> nat" where
  "days_in_month y m =
     (if m = 2 then (if is_leap y then 29 else 28)
      else if m \<in> set [4, 6, 9, 11] then 30 else 31)"

text \<open>
  The constructor \<open>datetime_date(year, month, day)\<close> accepts years 1 to 9999, months 1 to
  12 and the days of the month; it raises \<open>ValueError\<close> on anything else.
\<close>

definition valid_calendar_date :: "nat \<times> nat \<times> nat \<Rightarrow> bool" where
  "valid_calendar_date ymd =
     (case ymd of (y, m, d) \<Rightarrow>
        1 \<le> y \<and> y \<le> 9999 \<and> 1 \<le> m \<and> m \<le> 12 \<and> 1 \<le> d \<and> d \<le> days_in_month y m)"

subsection \<open>\<open>datetime.strptime(date_str, "%Y-%m-%d")\<close>\<close>

text \<open>
  \<open>strptime\<close> turns the format into the regular expression
  \<^verbatim>\<open>(?P<Y>\d\d\d\d)-(?P<m>1[0-2]|0[1-9]|[1-9])-(?P<d>3[0-1]|[1-2]\d|0[1-9]|[1-9]| [1-9])\<close>
  and matches it at the start of the string. An alternation tries its branches from left
  to right and keeps the first with which the rest of the expression matches. On ASCII
  text \<open>\d\<close> is a digit \<open>0\<close> to \<open>9\<close>.
\<close>

definition is_digit :: "char \<Rightarrow> bool" where
  "is_digit c = (c \<in> set ''0123456789'')"

definition is_digit19 :: "char \<Rightarrow> bool" where
  "is_digit19 c = (c \<in> set ''123456789'')"

definition digit :: "char \<Rightarrow> nat" where
  "digit c = (of_char c :: nat) - 48"

text \<open>The group \<open>Y\<close>: four digits. The result is the number read and the unread rest.\<close>

definition match_year :: "string \<Rightarrow> (nat \<times> string) option" where
  "match_year s =
     (case s of
        a # b # c # d # r \<Rightarrow>
          if is_digit a \<and> is_digit b \<and> is_digit c \<and> is_digit d
          then Some (1000 * digit a + 100 * digit b + 10 * digit c + digit d, r)
          else None
      | _ \<Rightarrow> None)"

text \<open>
  A branch of an alternation that is one character class, and a branch that is two
  classes in a row: the number read (by \<open>v\<close>) and the unread rest, if the branch matches
  at the start of the string.
\<close>

definition branch1 :: "(char \<Rightarrow> bool) \<Rightarrow> (char \<Rightarrow> nat) \<Rightarrow> string \<Rightarrow> (nat \<times> string) list" where
  "branch1 p v s = (case s of a # r \<Rightarrow> if p a then [(v a, r)] else [] | [] \<Rightarrow> [])"

definition branch2 ::
  "(char \<Rightarrow> bool) \<Rightarrow> (char \<Rightarrow> bool) \<Rightarrow> (char \<Rightarrow> char \<Rightarrow> nat) \<Rightarrow> string \<Rightarrow> (nat \<times> string) list" where
  "branch2 p q v s =
     (case s of a # b # r \<Rightarrow> if p a \<and> q b then [(v a b, r)] else [] | _ \<Rightarrow> [])"

text \<open>\<open>int\<close> of two digits, and of a digit after a character that does not count.\<close>

definition int2 :: "char \<Rightarrow> char \<Rightarrow> nat" where
  "int2 a b = 10 * digit a + digit b"

definition int_second :: "char \<Rightarrow> char \<Rightarrow> nat" where
  "int_second a b = digit b"

text \<open>
  The branches of the group \<open>m\<close>, \<open>1[0-2]|0[1-9]|[1-9]\<close>, that match at the start of the
  string, in their order.
\<close>

definition month_alternatives :: "string \<Rightarrow> (nat \<times> string) list" where
  "month_alternatives s =
     branch2 (\<lambda>a. a = CHR ''1'') (\<lambda>b. b \<in> set ''012'') int2 s
     @ branch2 (\<lambda>a. a = CHR ''0'') is_digit19 int2 s
     @ branch1 is_digit19 digit s"

text \<open>
  The branches of the group \<open>d\<close>, \<open>3[0-1]|[1-2]\d|0[1-9]|[1-9]| [1-9]\<close>;
  \<open>int(" 5")\<close> is 5.
\<close>

definition day_alternatives :: "string \<Rightarrow> (nat \<times> string) list" where
  "day_alternatives s =
     branch2 (\<lambda>a. a = CHR ''3'') (\<lambda>b. b \<in> set ''01'') int2 s
     @ branch2 (\<lambda>a. a \<in> set ''12'') is_digit int2 s
     @ branch2 (\<lambda>a. a = CHR ''0'') is_digit19 int2 s
     @ branch1 is_digit19 digit s
     @ branch2 (\<lambda>a. a = CHR '' '') is_digit19 int_second s"

text \<open>The first branch with which the continuation \<open>k\<close> matches.\<close>

fun first_match :: "('a \<Rightarrow> 'b option) \<Rightarrow> 'a list \<Rightarrow> 'b option" where
  "first_match k [] = None"
| "first_match k (x # xs) = (case k x of Some r \<Rightarrow> Some r | None \<Rightarrow> first_match k xs)"

text \<open>
  \<open>format_regex.match(data_string)\<close>: the three groups and the text after
  \<open>found.end()\<close>, or \<open>None\<close> when the expression does not match.
\<close>

definition match_format :: "string \<Rightarrow> ((nat \<times> nat \<times> nat) \<times> string) option" where
  "match_format s =
     (case match_year s of
        None \<Rightarrow> None
      | Some (y, r1) \<Rightarrow>
          (case r1 of
             [] \<Rightarrow> None
           | c1 # r2 \<Rightarrow>
               if c1 \<noteq> CHR ''-'' then None
               else first_match
                      (\<lambda>(m, r3). case r3 of
                           [] \<Rightarrow> None
                         | c2 # r4 \<Rightarrow>
                             if c2 \<noteq> CHR ''-'' then None
                             else first_match (\<lambda>(d, r5). Some ((y, m, d), r5)) (day_alternatives r4))
                      (month_alternatives r2)))"

text \<open>
  The \<open>ValueError\<close>s of \<open>strptime\<close>, by message:
  \<open>"time data ... does not match format ..."\<close> when the expression does not match,
  \<open>"unconverted data remains: ..."\<close> when it matches a proper prefix, and the message of
  the date constructor (\<open>"year 0 is out of range"\<close>, \<open>"day is out of range for month"\<close>)
  when the numbers are not a calendar date.
\<close>

datatype strptime_error = NoMatch | UnconvertedData string | OutOfRange

definition strptime :: "string \<Rightarrow> strptime_error + datetime" where
  "strptime data_string =
     (case match_format data_string of
        None \<Rightarrow> Inl NoMatch
      | Some ((y, m, d), rest) \<Rightarrow>
          if rest \<noteq> [] then Inl (UnconvertedData rest)
          else if valid_calendar_date (y, m, d)
          then Inr \<lparr>year = y, month = m, day = d, hour = 0, minute = 0, second = 0, tzinfo = None\<rparr>
          else Inl OutOfRange)"

text \<open>\<open>"time data" in str(e)\<close> for the \<open>ValueError\<close>s of \<open>strptime\<close>.\<close>

fun mentions_time_data :: "strptime_error \<Rightarrow> bool" where
  "mentions_time_data NoMatch = True"
| "mentions_time_data (UnconvertedData rest) =
     str_contains ''time data'' (''unconverted data remains: '' @ rest)"
| "mentions_time_data OutOfRange = False"

text \<open>
  The \<open>ValueError\<close>s that leave \<open>validate_date\<close>:
  \<open>InvalidDateFormat\<close> is \<open>ValueError("Invalid date format. Use YYYY-MM-DD format")\<close>,
  \<open>DateInFuture\<close> is \<open>ValueError("Date cannot be in the future")\<close>, which the handler
  raises again as it is (its message does not contain \<open>time data\<close>), and \<open>Reraised e\<close> is
  an error of \<open>strptime\<close> that the handler raises again as it is.
\<close>

datatype date_error = InvalidDateFormat | DateInFuture | Reraised strptime_error

text \<open>\<open>today\<close> is \<open>datetime.now(timezone.utc).date()\<close>.\<close>

definition validate_date :: "nat \<times> nat \<times> nat \<Rightarrow> string \<Rightarrow> date_error + datetime" where
  "validate_date today date_str =
     (case strptime date_str of
        Inl e \<Rightarrow> if mentions_time_data e then Inl InvalidDateFormat else Inl (Reraised e)
      | Inr parsed \<Rightarrow>
          (let date_obj = parsed\<lparr>tzinfo := Some UTC\<rparr> in
           if date_gt (date_of date_obj) today then Inl DateInFuture
           else Inr date_obj))"

subsection \<open>The strict form \<open>YYYY-MM-DD\<close>\<close>

definition strict_form :: "string \<Rightarrow> bool" where
  "strict_form s =
     (length s = 10 \<and> s ! 4 = CHR ''-'' \<and> s ! 7 = CHR ''-'' \<and>
      list_all is_digit (take 4 s @ take 2 (drop 5 s) @ drop 8 s))"

definition decimal :: "string \<Rightarrow> nat" where
  "decimal ds = foldl (\<lambda>acc c. 10 * acc + digit c) 0 ds"

definition ymd_of :: "string \<Rightarrow> nat \<times> nat \<times> nat" where
  "ymd_of s = (decimal (take 4 s), decimal (take 2 (drop 5 s)), decimal (drop 8 s))"

subsection \<open>The spellings of a date that the pattern takes\<close>

text \<open>
  Written out from the regular expression: four digits for the year; the month with two
  digits or, below 10, with one; the day with two digits or, below 10, with one digit or
  with a space and one digit. The first spelling in the list is the strict one.
\<close>

definition dchar :: "nat \<Rightarrow> char" where
  "dchar k = ''0123456789'' ! k"

definition digits4 :: "nat \<Rightarrow> string" where
  "digits4 y = [dchar (y div 1000 mod 10), dchar (y div 100 mod 10), dchar (y div 10 mod 10), dchar (y mod 10)]"

definition two_digits :: "nat \<Rightarrow> string" where
  "two_digits n = [dchar (n div 10), dchar (n mod 10)]"

definition month_spellings :: "nat \<Rightarrow> string list" where
  "month_spellings m = two_digits m # (if m < 10 then [[dchar m]] else [])"

definition day_spellings :: "nat \<Rightarrow> string list" where
  "day_spellings d = two_digits d # (if d < 10 then [[dchar d], [CHR '' '', dchar d]] else [])"

definition spellings :: "nat \<times> nat \<times> nat \<Rightarrow> string list" where
  "spellings ymd =
     (case ymd of (y, m, d) \<Rightarrow>
        [digits4 y @ ''-'' @ ms @ ''-'' @ ds. ms \<leftarrow> month_spellings m, ds \<leftarrow> day_spellings d])"

text \<open>The numbers the three groups of the pattern can read.\<close>

definition in_pattern_range :: "nat \<times> nat \<times> nat \<Rightarrow> bool" where
  "in_pattern_range ymd =
     (case ymd of (y, m, d) \<Rightarrow> y \<le> 9999 \<and> 1 \<le> m \<and> m \<le> 12 \<and> 1 \<le> d \<and> d \<le> 31)"

text \<open>The \<open>datetime\<close> that \<open>validate_date\<close> returns for a date: midnight, in UTC.\<close>

definition utc_midnight :: "nat \<times> nat \<times> nat \<Rightarrow> datetime" where
  "utc_midnight ymd =
     (case ymd of (y, m, d) \<Rightarrow>
        \<lparr>year = y, month = m, day = d, hour = 0, minute = 0, second = 0, tzinfo = Some UTC\<rparr>)"

text \<open>The day after a date: "tomorrow" when the date is today.\<close>

definition next_day :: "nat \<times> nat \<times> nat \<Rightarrow> nat \<times> nat \<times> nat" where
  "next_day ymd =
     (case ymd of (y, m, d) \<Rightarrow>
        if d < days_in_month y m then (y, m, d + 1)
        else if m < 12 then (y, m + 1, 1)
        else (y + 1, 1, 1))"

section \<open>Fixtures\<close>

text \<open>
  An endpoint that answers every request with the object
  \<^verbatim>\<open>{"jsonrpc": "2.0", "id": 1}\<close>: valid JSON with neither a \<open>result\<close> nor an \<open>error\<close>
  member.
\<close>

definition bare_response :: json where
  "bare_response = JObj [(''jsonrpc'', JStr ''2.0''), (''id'', JNum 1)]"

definition bare_endpoint :: endpoint where
  "bare_endpoint sent payload = Loads bare_response"

text \<open>An endpoint that answers every request with \<^verbatim>\<open>{"jsonrpc": "2.0", "id": 1, "result": "0x64"}\<close>.\<close>

definition result_endpoint :: endpoint where
  "result_endpoint sent payload =
     Loads (JObj [(''jsonrpc'', JStr ''2.0''), (''id'', JNum 1), (''result'', JStr ''0x64'')])"

text \<open>The account of \<open>main()\<close>, in mixed case, without its \<open>0x\<close>.\<close>

definition main_address_digits :: string where
  "main_address_digits = ''7D5CEA2e5fBDFecca8CcfbFe85AC021C817a7f38''"

section \<open>Properties of the block resolver\<close>

lemma mid_bounds: "left s \<le> right s \<Longrightarrow> left s \<le> mid s \<and> mid s \<le> right s"
  by (simp add: mid_def) linarith

lemma loop_body_qualifies:
  "qualifies g t (mid s) \<Longrightarrow> loop_body g t s = s\<lparr>left := mid s + 1, result_block := Some (mid s)\<rparr>"
  by (auto simp: loop_body_def qualifies_def split: probe.splits)

lemma loop_body_not_qualifies:
  "\<not> qualifies g t (mid s) \<Longrightarrow> loop_body g t s = s\<lparr>right := mid s - 1\<rparr>"
  by (auto simp: loop_body_def qualifies_def split: probe.splits)

lemma loop_body_smaller:
  "left s \<le> right s \<Longrightarrow> interval_size (loop_body g t s) < interval_size s"
  using mid_bounds [of s]
  by (cases "qualifies g t (mid s)")
     (simp_all add: loop_body_qualifies loop_body_not_qualifies interval_size_def)

lemma search_loop_exit: "\<not> left s \<le> right s \<Longrightarrow> search_loop g t s = s"
  by (subst search_loop.simps) simp

lemma search_loop_step:
  "left s \<le> right s \<Longrightarrow> search_loop g t s = search_loop g t (loop_body g t s)"
  by (subst search_loop.simps) simp

lemma probed_heights_exit: "\<not> left s \<le> right s \<Longrightarrow> probed_heights g t s = []"
  by (subst probed_heights.simps) simp

lemma probed_heights_step:
  "left s \<le> right s \<Longrightarrow> probed_heights g t s = mid s # probed_heights g t (loop_body g t s)"
  by (subst probed_heights.simps) simp

text \<open>The invariant rule of the loop.\<close>

lemma search_loop_invariant:
  assumes "P s"
    and "\<And>s. P s \<Longrightarrow> left s \<le> right s \<Longrightarrow> P (loop_body g t s)"
  shows "P (search_loop g t s) \<and> right (search_loop g t s) < left (search_loop g t s)"
  using assms
proof (induction g t s rule: search_loop.induct)
  case (1 g t s)
  show ?case
  proof (cases "left s \<le> right s")
    case True
    have "P (loop_body g t s)" using "1.prems" True by blast
    then have "P (search_loop g t (loop_body g t s)) \<and>
        right (search_loop g t (loop_body g t s)) < left (search_loop g t (loop_body g t s))"
      using "1.IH" [OF True] "1.prems"(2) by blast
    then show ?thesis using search_loop_step [OF True, of g t] by simp
  next
    case False
    then show ?thesis using "1.prems"(1) by (simp add: search_loop_exit)
  qed
qed

text \<open>Whatever the oracle, a returned height lies in range and qualifies.\<close>

lemma loop_body_keeps_sound:
  assumes "0 \<le> left s \<and> right s \<le> latest \<and>
           (\<forall>h. result_block s = Some h \<longrightarrow> 0 \<le> h \<and> h \<le> latest \<and> qualifies g t h)"
    and "left s \<le> right s"
  shows "0 \<le> left (loop_body g t s) \<and> right (loop_body g t s) \<le> latest \<and>
         (\<forall>h. result_block (loop_body g t s) = Some h \<longrightarrow> 0 \<le> h \<and> h \<le> latest \<and> qualifies g t h)"
  using assms mid_bounds [of s]
  by (cases "qualifies g t (mid s)")
     (auto simp: loop_body_qualifies loop_body_not_qualifies)

lemma search_loop_result_in_range:
  assumes "result_block (search_loop g t (initial_state latest)) = Some h"
  shows "0 \<le> h \<and> h \<le> latest \<and> qualifies g t h"
proof -
  let ?P = "\<lambda>s. 0 \<le> left s \<and> right s \<le> latest \<and>
           (\<forall>h. result_block s = Some h \<longrightarrow> 0 \<le> h \<and> h \<le> latest \<and> qualifies g t h)"
  have init: "?P (initial_state latest)" by (simp add: initial_state_def)
  have "?P (search_loop g t (initial_state latest)) \<and>
        right (search_loop g t (initial_state latest)) < left (search_loop g t (initial_state latest))"
    by (rule search_loop_invariant [of ?P, OF init]) (rule loop_body_keeps_sound)
  then show ?thesis using assms by simp
qed

lemma search_loop_result_probed:
  "result_block (search_loop g t s) = Some h \<Longrightarrow>
     result_block s = Some h \<or> h \<in> set (probed_heights g t s)"
proof (induction g t s rule: search_loop.induct)
  case (1 g t s)
  show ?case
  proof (cases "left s \<le> right s")
    case True
    then have "result_block (search_loop g t (loop_body g t s)) = Some h"
      using "1.prems" search_loop_step [OF True, of g t] by simp
    then have "result_block (loop_body g t s) = Some h \<or> h \<in> set (probed_heights g t (loop_body g t s))"
      using "1.IH" [OF True] by blast
    moreover have "result_block (loop_body g t s) = Some h \<Longrightarrow> result_block s = Some h \<or> h = mid s"
      by (cases "qualifies g t (mid s)") (auto simp: loop_body_qualifies loop_body_not_qualifies)
    ultimately show ?thesis using probed_heights_step [OF True, of g t] by auto
  next
    case False
    then show ?thesis using "1.prems" by (simp add: search_loop_exit)
  qed
qed

lemma is_block_iff: "(case p of Block ts \<Rightarrow> True | _ \<Rightarrow> False) \<longleftrightarrow> (\<exists>ts. p = Block ts)"
  by (cases p) simp_all

lemma total_upto_iff:
  "total_upto g latest \<longleftrightarrow> (\<forall>h. 0 \<le> h \<and> h \<le> latest \<longrightarrow> (\<exists>ts. g h = Block ts))"
  unfolding total_upto_def list_all_iff is_block_iff by auto

lemma blocks_ordered_iff:
  "(case (p, q) of (Block ti, Block tj) \<Rightarrow> ti \<le> tj | _ \<Rightarrow> True) \<longleftrightarrow>
     (\<forall>ti tj. p = Block ti \<and> q = Block tj \<longrightarrow> ti \<le> tj)"
  by (cases p; cases q) simp_all

lemma monotone_upto_iff:
  "monotone_upto g latest \<longleftrightarrow>
     (\<forall>i j ti tj. 0 \<le> i \<and> i \<le> j \<and> j \<le> latest \<and> g i = Block ti \<and> g j = Block tj \<longrightarrow> ti \<le> tj)"
proof -
  have "monotone_upto g latest \<longleftrightarrow>
      (\<forall>i\<in>{0..latest}. \<forall>j\<in>{i..latest}. \<forall>ti tj. g i = Block ti \<and> g j = Block tj \<longrightarrow> ti \<le> tj)"
    unfolding monotone_upto_def list_all_iff blocks_ordered_iff by simp
  also have "\<dots> \<longleftrightarrow>
     (\<forall>i j ti tj. 0 \<le> i \<and> i \<le> j \<and> j \<le> latest \<and> g i = Block ti \<and> g j = Block tj \<longrightarrow> ti \<le> tj)"
  proof
    assume a: "\<forall>i\<in>{0..latest}. \<forall>j\<in>{i..latest}. \<forall>ti tj. g i = Block ti \<and> g j = Block tj \<longrightarrow> ti \<le> tj"
    show "\<forall>i j ti tj. 0 \<le> i \<and> i \<le> j \<and> j \<le> latest \<and> g i = Block ti \<and> g j = Block tj \<longrightarrow> ti \<le> tj"
    proof (intro allI impI)
      fix i j ti tj
      assume h: "0 \<le> i \<and> i \<le> j \<and> j \<le> latest \<and> g i = Block ti \<and> g j = Block tj"
      then have "i \<in> {0..latest}" "j \<in> {i..latest}" by simp_all
      then show "ti \<le> tj" using a h by blast
    qed
  next
    assume b: "\<forall>i j ti tj. 0 \<le> i \<and> i \<le> j \<and> j \<le> latest \<and> g i = Block ti \<and> g j = Block tj \<longrightarrow> ti \<le> tj"
    show "\<forall>i\<in>{0..latest}. \<forall>j\<in>{i..latest}. \<forall>ti tj. g i = Block ti \<and> g j = Block tj \<longrightarrow> ti \<le> tj"
    proof (intro ballI allI impI)
      fix i j ti tj
      assume "i \<in> {0..latest}" "j \<in> {i..latest}" "g i = Block ti \<and> g j = Block tj"
      then have "0 \<le> i \<and> i \<le> j \<and> j \<le> latest \<and> g i = Block ti \<and> g j = Block tj" by simp
      then show "ti \<le> tj" using b by blast
    qed
  qed
  finally show ?thesis .
qed

text \<open>On a total, monotone chain the qualifying heights are closed downwards.\<close>

lemma qualifies_downward:
  assumes "total_upto g latest" "monotone_upto g latest"
    and "0 \<le> i" "i \<le> j" "j \<le> latest" "qualifies g t j"
  shows "qualifies g t i"
proof -
  obtain ti where ti: "g i = Block ti" using assms(1,3,4,5) unfolding total_upto_iff by force
  obtain tj where tj: "g j = Block tj" "tj \<le> t"
    using assms(6) by (auto simp: qualifies_def split: probe.splits)
  have "ti \<le> tj" using assms(2,3,4,5) ti tj(1) unfolding monotone_upto_iff by blast
  then show ?thesis using ti tj(2) by (simp add: qualifies_def)
qed

lemma loop_body_keeps_monotone_inv:
  assumes tot: "total_upto g latest" and mono: "monotone_upto g latest"
    and inv: "0 \<le> left s \<and> right s \<le> latest \<and> left s \<le> right s + 1 \<and>
         (\<forall>h. 0 \<le> h \<and> h < left s \<longrightarrow> qualifies g t h) \<and>
         (\<forall>h. right s < h \<and> h \<le> latest \<longrightarrow> \<not> qualifies g t h) \<and>
         result_block s = (if left s = 0 then None else Some (left s - 1))"
    and guard: "left s \<le> right s"
  shows "0 \<le> left (loop_body g t s) \<and> right (loop_body g t s) \<le> latest \<and>
         left (loop_body g t s) \<le> right (loop_body g t s) + 1 \<and>
         (\<forall>h. 0 \<le> h \<and> h < left (loop_body g t s) \<longrightarrow> qualifies g t h) \<and>
         (\<forall>h. right (loop_body g t s) < h \<and> h \<le> latest \<longrightarrow> \<not> qualifies g t h) \<and>
         result_block (loop_body g t s) =
           (if left (loop_body g t s) = 0 then None else Some (left (loop_body g t s) - 1))"
proof (cases "qualifies g t (mid s)")
  case True
  have "\<And>h. 0 \<le> h \<Longrightarrow> h < mid s + 1 \<Longrightarrow> qualifies g t h"
    using qualifies_downward [OF tot mono _ _ _ True] mid_bounds [OF guard] inv by force
  then show ?thesis
    using inv mid_bounds [OF guard] by (simp add: loop_body_qualifies [OF True])
next
  case False
  have "\<And>h. mid s - 1 < h \<Longrightarrow> h \<le> latest \<Longrightarrow> \<not> qualifies g t h"
    using qualifies_downward [OF tot mono, of "mid s" _ t] mid_bounds [OF guard] inv False by force
  then show ?thesis
    using inv mid_bounds [OF guard] by (simp add: loop_body_not_qualifies [OF False])
qed

lemma search_loop_monotone_final:
  fixes g :: probe_oracle and t latest :: int
  assumes tot: "total_upto g latest" and mono: "monotone_upto g latest" and nonneg: "- 1 \<le> latest"
  defines "s' \<equiv> search_loop g t (initial_state latest)"
  shows "0 \<le> left s' \<and> left s' = right s' + 1 \<and> right s' \<le> latest \<and>
         (\<forall>h. 0 \<le> h \<and> h \<le> right s' \<longrightarrow> qualifies g t h) \<and>
         (\<forall>h. right s' < h \<and> h \<le> latest \<longrightarrow> \<not> qualifies g t h) \<and>
         result_block s' = (if right s' < 0 then None else Some (right s'))"
proof -
  let ?P = "\<lambda>s. 0 \<le> left s \<and> right s \<le> latest \<and> left s \<le> right s + 1 \<and>
         (\<forall>h. 0 \<le> h \<and> h < left s \<longrightarrow> qualifies g t h) \<and>
         (\<forall>h. right s < h \<and> h \<le> latest \<longrightarrow> \<not> qualifies g t h) \<and>
         result_block s = (if left s = 0 then None else Some (left s - 1))"
  have init: "?P (initial_state latest)"
    using nonneg by (auto simp: initial_state_def)
  have "?P s' \<and> right s' < left s'"
    unfolding s'_def
    by (rule search_loop_invariant [of ?P, OF init]) (rule loop_body_keeps_monotone_inv [OF tot mono])
  then have P: "?P s'" and exit: "right s' < left s'" by blast+
  from P exit have eq: "left s' = right s' + 1" by linarith
  show ?thesis using P eq by simp
qed


lemma qualifies_iff: "qualifies g t h \<longleftrightarrow> (\<exists>ts. g h = Block ts \<and> ts \<le> t)"
  by (auto simp: qualifies_def split: probe.splits)

lemma find_last_unfold:
  "find_last_block_of_day (Inr latest) g t = Inr (result_block (search_loop g t (initial_state latest)))"
  by (simp add: find_last_block_of_day_def)

text \<open>The result on a total, monotone chain, as a function of the chain.\<close>

lemma search_loop_monotone_result:
  fixes g :: probe_oracle and t latest :: int
  assumes tot: "total_upto g latest" and mono: "monotone_upto g latest"
  shows "result_block (search_loop g t (initial_state latest)) = Some h \<longleftrightarrow>
           0 \<le> h \<and> h \<le> latest \<and> qualifies g t h \<and> (h = latest \<or> \<not> qualifies g t (h + 1))"
    and "result_block (search_loop g t (initial_state latest)) = None \<longleftrightarrow>
           \<not> (\<exists>h. 0 \<le> h \<and> h \<le> latest \<and> qualifies g t h)"
proof -
  let ?s = "search_loop g t (initial_state latest)"
  have both: "(result_block ?s = Some h \<longleftrightarrow>
           0 \<le> h \<and> h \<le> latest \<and> qualifies g t h \<and> (h = latest \<or> \<not> qualifies g t (h + 1))) \<and>
        (result_block ?s = None \<longleftrightarrow> \<not> (\<exists>h. 0 \<le> h \<and> h \<le> latest \<and> qualifies g t h))"
  proof (cases "latest < 0")
    case True
    then have "?s = initial_state latest"
      by (simp add: search_loop_exit initial_state_def)
    then have "result_block ?s = None" by (simp add: initial_state_def)
    then show ?thesis using True by auto
  next
    case False
    then have nonneg: "- 1 \<le> latest" by simp
    note fin = search_loop_monotone_final [OF tot mono nonneg, of t]
    from fin have eq: "left ?s = right ?s + 1" and r: "right ?s \<le> latest"
      and low: "\<And>h. 0 \<le> h \<Longrightarrow> h \<le> right ?s \<Longrightarrow> qualifies g t h"
      and high: "\<And>h. right ?s < h \<Longrightarrow> h \<le> latest \<Longrightarrow> \<not> qualifies g t h"
      and res: "result_block ?s = (if right ?s < 0 then None else Some (right ?s))"
      and l0: "0 \<le> left ?s"
      by blast+
    show ?thesis
    proof (cases "right ?s < 0")
      case True
      then have none: "\<And>h. 0 \<le> h \<Longrightarrow> h \<le> latest \<Longrightarrow> \<not> qualifies g t h"
        using high by force
      show ?thesis using res True none by auto
    next
      case nn: False
      have q: "qualifies g t (right ?s)" using low nn by simp
      have top: "right ?s = latest \<or> \<not> qualifies g t (right ?s + 1)"
        using high [of "right ?s + 1"] r by force
      have uniq: "0 \<le> h \<and> h \<le> latest \<and> qualifies g t h \<and> (h = latest \<or> \<not> qualifies g t (h + 1))
                  \<Longrightarrow> h = right ?s"
      proof -
        assume a: "0 \<le> h \<and> h \<le> latest \<and> qualifies g t h \<and> (h = latest \<or> \<not> qualifies g t (h + 1))"
        have "\<not> right ?s < h" using high [of h] a by blast
        moreover have "\<not> h < right ?s"
        proof
          assume lt: "h < right ?s"
          then have "h \<noteq> latest" using r by simp
          moreover have "qualifies g t (h + 1)" using low [of "h + 1"] a lt by simp
          ultimately show False using a by blast
        qed
        ultimately show ?thesis by simp
      qed
      show ?thesis using res nn q top r uniq by auto
    qed
  qed
  from both show "result_block ?s = Some h \<longleftrightarrow>
           0 \<le> h \<and> h \<le> latest \<and> qualifies g t h \<and> (h = latest \<or> \<not> qualifies g t (h + 1))" by blast
  from both show "result_block ?s = None \<longleftrightarrow> \<not> (\<exists>h. 0 \<le> h \<and> h \<le> latest \<and> qualifies g t h)" by blast
qed

lemma total_upto_mock_chain: "total_upto mock_chain latest"
  by (simp add: total_upto_iff mock_chain_def)

lemma monotone_upto_mock_chain: "monotone_upto mock_chain latest"
  by (auto simp: monotone_upto_iff mock_chain_def)

text \<open>
  Claim C1. On a chain that answers every probe in \<open>[0, latest]\<close> and whose timestamps
  never decrease with the height, \<open>find_last_block_of_day\<close> returns \<open>h\<close> exactly when
  \<open>h\<close> is in range, \<open>timestamp(h) \<le> target\<close> and \<open>h\<close> is the head or
  \<open>timestamp(h + 1) > target\<close>; the result being one value, at most one height has this
  property, and it is the one returned. It returns \<open>None\<close> exactly when no height in range
  has a timestamp at most the target, and the head when the head's timestamp is at most the
  target.
\<close>

theorem find_last_block_of_day_monotone:
  assumes "total_upto g latest" and "monotone_upto g latest"
  shows "(\<forall>h. find_last_block_of_day (Inr latest) g t = Inr (Some h) \<longleftrightarrow>
             0 \<le> h \<and> h \<le> latest \<and> (\<exists>ts. g h = Block ts \<and> ts \<le> t) \<and>
             (h = latest \<or> (\<exists>ts. g (h + 1) = Block ts \<and> t < ts))) \<and>
         (find_last_block_of_day (Inr latest) g t = Inr None \<longleftrightarrow>
             \<not> (\<exists>h ts. 0 \<le> h \<and> h \<le> latest \<and> g h = Block ts \<and> ts \<le> t)) \<and>
         (\<forall>ts. 0 \<le> latest \<and> g latest = Block ts \<and> ts \<le> t \<longrightarrow>
             find_last_block_of_day (Inr latest) g t = Inr (Some latest))"
proof -
  have next_block: "\<not> qualifies g t (h + 1) \<longleftrightarrow> (\<exists>ts. g (h + 1) = Block ts \<and> t < ts)"
    if range: "0 \<le> h" "h < latest" for h
  proof -
    obtain ts where "g (h + 1) = Block ts"
      using assms(1) range unfolding total_upto_iff by force
    then show ?thesis by (auto simp: qualifies_def)
  qed
  have some: "find_last_block_of_day (Inr latest) g t = Inr (Some h) \<longleftrightarrow>
             0 \<le> h \<and> h \<le> latest \<and> (\<exists>ts. g h = Block ts \<and> ts \<le> t) \<and>
             (h = latest \<or> (\<exists>ts. g (h + 1) = Block ts \<and> t < ts))" for h
  proof (cases "0 \<le> h \<and> h < latest")
    case True
    then show ?thesis
      using search_loop_monotone_result(1) [OF assms, of t h] next_block [of h]
      by (simp add: find_last_unfold qualifies_iff)
  next
    case False
    then have "\<not> (0 \<le> h \<and> h \<le> latest) \<or> h = latest" by linarith
    then show ?thesis
      using search_loop_monotone_result(1) [OF assms, of t h]
      by (auto simp: find_last_unfold qualifies_iff)
  qed
  have none: "find_last_block_of_day (Inr latest) g t = Inr None \<longleftrightarrow>
             \<not> (\<exists>h ts. 0 \<le> h \<and> h \<le> latest \<and> g h = Block ts \<and> ts \<le> t)"
    using search_loop_monotone_result(2) [OF assms, of t]
    by (auto simp: find_last_unfold qualifies_iff)
  have head: "find_last_block_of_day (Inr latest) g t = Inr (Some latest)"
    if "0 \<le> latest" "g latest = Block ts" "ts \<le> t" for ts
    using some [of latest] that by auto
  show ?thesis using some none head by blast
qed

text \<open>
  The scenario of the specification: heights 0 to 100 with timestamp \<open>height * 1000\<close>.
  Target 50500 resolves to 50, a target at the head's timestamp to 100, and a target
  before the first block to \<open>None\<close>.
\<close>

theorem find_last_block_of_day_monotone_witness:
  "total_upto mock_chain 100 \<and> monotone_upto mock_chain 100 \<and>
   find_last_block_of_day (Inr 100 :: unit + int) mock_chain 50500 = Inr (Some 50) \<and>
   find_last_block_of_day (Inr 100 :: unit + int) mock_chain 100000 = Inr (Some 100) \<and>
   find_last_block_of_day (Inr 100 :: unit + int) mock_chain (- 1) = Inr None"
proof -
  note char = find_last_block_of_day_monotone [OF total_upto_mock_chain monotone_upto_mock_chain, of 100]
  have "find_last_block_of_day (Inr 100 :: unit + int) mock_chain 50500 = Inr (Some 50)"
    using char [of 50500, THEN conjunct1, THEN spec, of 50] by (simp add: mock_chain_def)
  moreover have "find_last_block_of_day (Inr 100 :: unit + int) mock_chain 100000 = Inr (Some 100)"
    using char [of 100000, THEN conjunct2, THEN conjunct2, THEN spec, of 100000]
    by (simp add: mock_chain_def)
  moreover have "find_last_block_of_day (Inr 100 :: unit + int) mock_chain (- 1) = Inr None"
    using char [of "- 1", THEN conjunct2, THEN conjunct1] by (auto simp: mock_chain_def)
  ultimately show ?thesis
    using total_upto_mock_chain monotone_upto_mock_chain by simp
qed

text \<open>
  Claim C10. For every \<open>latest\<close> and every oracle, monotone or not, with failures and
  absent blocks wherever they fall: a returned height \<open>h\<close> lies in \<open>[0, latest]\<close>, its
  probe answered with a block whose timestamp is at most the target, and the loop did probe
  it.
\<close>

theorem find_last_block_of_day_sound:
  assumes "find_last_block_of_day (Inr latest) g t = Inr (Some h)"
  shows "0 \<le> h \<and> h \<le> latest \<and> (\<exists>ts. g h = Block ts \<and> ts \<le> t) \<and>
         h \<in> set (probed_heights g t (initial_state latest))"
proof -
  have res: "result_block (search_loop g t (initial_state latest)) = Some h"
    using assms by (simp add: find_last_unfold)
  have "result_block (initial_state latest) = None" by (simp add: initial_state_def)
  then have "h \<in> set (probed_heights g t (initial_state latest))"
    using search_loop_result_probed [OF res] by simp
  then show ?thesis
    using search_loop_result_in_range [OF res] by (simp add: qualifies_iff)
qed

text \<open>A run with a failing probe at 50 and an absent block at 12 returns 49.\<close>

theorem find_last_block_of_day_sound_witness:
  "find_last_block_of_day (Inr 100 :: unit + int) (mock_chain(50 := Failed, 12 := Absent)) 50500 = Inr (Some 49) \<and>
   (\<exists>ts. (mock_chain(50 := Failed, 12 := Absent)) 49 = Block ts \<and> ts \<le> 50500) \<and>
   49 \<in> set (probed_heights (mock_chain(50 := Failed, 12 := Absent)) 50500 (initial_state 100))"
proof -
  have run: "find_last_block_of_day (Inr 100 :: unit + int) (mock_chain(50 := Failed, 12 := Absent)) 50500
               = Inr (Some 49)"
    by code_simp
  show ?thesis using run find_last_block_of_day_sound [OF run] by simp
qed


subsection \<open>Termination\<close>

lemma interval_size_initial: "interval_size (initial_state latest) = nat (latest + 1)"
  by (simp add: interval_size_def initial_state_def)

lemma search_fuel_enough:
  "interval_size s \<le> n \<Longrightarrow> search_fuel n g t s = Some (search_loop g t s)"
proof (induction n arbitrary: s)
  case 0
  then have "\<not> left s \<le> right s" by (simp add: interval_size_def)
  then show ?case by (simp add: search_loop_exit)
next
  case (Suc n)
  show ?case
  proof (cases "left s \<le> right s")
    case True
    then have "interval_size (loop_body g t s) \<le> n"
      using loop_body_smaller [OF True, of g t] Suc.prems by simp
    then show ?thesis
      using Suc.IH True search_loop_step [OF True, of g t] by simp
  next
    case False
    then show ?thesis by (simp add: search_loop_exit)
  qed
qed

text \<open>
  Claim C4. For every \<open>latest\<close> and every oracle the loop terminates: each iteration makes
  the interval \<open>[left, right]\<close> strictly smaller, so the loop run with a budget of
  \<open>latest + 1\<close> iterations finishes within the budget, with the state the loop returns.
  When no height in range answers with a block whose timestamp is at most the target
  (every probe fails, or finds no block, or finds a later block), the result is \<open>None\<close>.
\<close>

theorem search_loop_terminates:
  "(\<forall>s. left s \<le> right s \<longrightarrow> interval_size (loop_body g t s) < interval_size s) \<and>
   search_fuel (nat (latest + 1)) g t (initial_state latest)
     = Some (search_loop g t (initial_state latest)) \<and>
   ((\<forall>h ts. 0 \<le> h \<and> h \<le> latest \<and> g h = Block ts \<longrightarrow> t < ts) \<longrightarrow>
      find_last_block_of_day (Inr latest) g t = Inr None)"
proof -
  have fuel: "search_fuel (nat (latest + 1)) g t (initial_state latest)
     = Some (search_loop g t (initial_state latest))"
    by (rule search_fuel_enough) (simp add: interval_size_initial)
  have none: "find_last_block_of_day (Inr latest) g t = Inr None"
    if empty_range: "\<forall>h ts. 0 \<le> h \<and> h \<le> latest \<and> g h = Block ts \<longrightarrow> t < ts"
  proof (cases "result_block (search_loop g t (initial_state latest))")
    case None
    then show ?thesis by (simp add: find_last_unfold)
  next
    case (Some h)
    have "0 \<le> h \<and> h \<le> latest \<and> (\<exists>ts. g h = Block ts \<and> ts \<le> t)"
      using search_loop_result_in_range [OF Some] by (simp add: qualifies_iff)
    then have False using empty_range by fastforce
    then show ?thesis ..
  qed
  show ?thesis using loop_body_smaller fuel none by blast
qed

text \<open>A chain with a failing probe, an absent block and a target before the first block.\<close>

theorem search_loop_terminates_witness:
  "\<not> (\<exists>h ts. 0 \<le> h \<and> h \<le> 100 \<and> (mock_chain(7 := Failed, 8 := Absent)) h = Block ts \<and> ts \<le> - 1) \<and>
   search_fuel (nat (100 + 1)) (mock_chain(7 := Failed, 8 := Absent)) (- 1) (initial_state 100)
     = Some (search_loop (mock_chain(7 := Failed, 8 := Absent)) (- 1) (initial_state 100)) \<and>
   find_last_block_of_day (Inr 100 :: unit + int) (mock_chain(7 := Failed, 8 := Absent)) (- 1) = Inr None"
proof -
  have hyp: "\<forall>h ts. 0 \<le> h \<and> h \<le> 100 \<and> (mock_chain(7 := Failed, 8 := Absent)) h = Block ts \<longrightarrow> - 1 < ts"
    by (auto simp: mock_chain_def)
  then have no_height: "\<not> (\<exists>h ts. 0 \<le> h \<and> h \<le> 100 \<and>
      (mock_chain(7 := Failed, 8 := Absent)) h = Block ts \<and> ts \<le> - 1)"
    by fastforce
  show ?thesis
    using hyp no_height search_loop_terminates [of "mock_chain(7 := Failed, 8 := Absent)" "- 1" 100]
    by blast
qed

subsection \<open>The invariant of \<open>result_block\<close>\<close>

lemma best_probed_alt:
  "best_probed g t ps =
     (if filter (qualifies g t) ps = [] then None
      else Some (Max (set (filter (qualifies g t) ps))))"
  by (cases "filter (qualifies g t) ps") (simp_all add: best_probed_def)

lemma at_loop_head_invariant:
  "at_loop_head g t latest ps s \<Longrightarrow>
     result_block s = best_probed g t ps \<and> (\<forall>h\<in>set ps. qualifies g t h \<longrightarrow> h < left s)"
proof (induction rule: at_loop_head.induct)
  case entry
  show ?case by (simp add: best_probed_alt initial_state_def)
next
  case (iteration ps s)
  show ?case
  proof (cases "qualifies g t (mid s)")
    case True
    let ?A = "set (filter (qualifies g t) (ps @ [mid s]))"
    have "mid s \<in> ?A" using True by simp
    moreover have "\<forall>y\<in>?A. y \<le> mid s"
      using iteration.IH mid_bounds [OF iteration.hyps(2)] by auto
    ultimately have "Max ?A = mid s" by (intro Max_eqI) auto
    then have "best_probed g t (ps @ [mid s]) = Some (mid s)"
      using True by (simp add: best_probed_alt)
    moreover have "\<forall>h\<in>set (ps @ [mid s]). qualifies g t h \<longrightarrow> h < mid s + 1"
      using iteration.IH mid_bounds [OF iteration.hyps(2)] by auto
    ultimately show ?thesis by (simp add: loop_body_qualifies [OF True])
  next
    case False
    then have "best_probed g t (ps @ [mid s]) = best_probed g t ps"
      by (simp add: best_probed_alt)
    then show ?thesis
      using iteration.IH False by (auto simp: loop_body_not_qualifies [OF False])
  qed
qed

text \<open>
  The loop passes through such states only: the state it returns is at the loop head, with
  all the heights it probed as the history.
\<close>

lemma at_loop_head_search_loop:
  "at_loop_head g t latest ps s \<Longrightarrow>
     at_loop_head g t latest (ps @ probed_heights g t s) (search_loop g t s)"
proof (induction g t s arbitrary: ps rule: search_loop.induct)
  case (1 g t s)
  show ?case
  proof (cases "left s \<le> right s")
    case True
    have "at_loop_head g t latest (ps @ [mid s]) (loop_body g t s)"
      using "1.prems" True by (rule at_loop_head.iteration)
    from "1.IH" [OF True this] show ?thesis
      using search_loop_step [OF True, of g t] probed_heights_step [OF True, of g t] by simp
  next
    case False
    then show ?thesis using "1.prems" by (simp add: search_loop_exit probed_heights_exit)
  qed
qed

lemma search_loop_best_probed:
  "result_block (search_loop g t (initial_state latest))
     = best_probed g t (probed_heights g t (initial_state latest))"
  using at_loop_head_invariant [OF at_loop_head_search_loop [OF at_loop_head.entry, of g t latest]]
  by simp

text \<open>
  Claim C3. At every arrival at the loop test, on entry and after each iteration whichever
  branch it took, and for every oracle: \<open>result_block\<close> is \<open>None\<close> when no height probed so
  far qualified, and otherwise the highest height probed so far whose probe answered with a
  block of timestamp at most the target.
\<close>

theorem result_block_is_best_probed:
  assumes "at_loop_head g t latest ps s"
  shows "result_block s = best_probed g t ps \<and>
         (\<forall>h. result_block s = Some h \<longrightarrow>
            h \<in> set ps \<and> (\<exists>ts. g h = Block ts \<and> ts \<le> t) \<and>
            (\<forall>h'\<in>set ps. (\<exists>ts. g h' = Block ts \<and> ts \<le> t) \<longrightarrow> h' \<le> h)) \<and>
         (result_block s = None \<longrightarrow> (\<forall>h\<in>set ps. \<not> (\<exists>ts. g h = Block ts \<and> ts \<le> t)))"
proof -
  let ?Q = "filter (qualifies g t) ps"
  have eq: "result_block s = best_probed g t ps"
    using at_loop_head_invariant [OF assms] by blast
  have none: "\<forall>h\<in>set ps. \<not> qualifies g t h" if "result_block s = None"
    using that eq by (auto simp: best_probed_alt filter_empty_conv split: if_splits)
  have some: "h \<in> set ps \<and> qualifies g t h \<and> (\<forall>h'\<in>set ps. qualifies g t h' \<longrightarrow> h' \<le> h)"
    if res: "result_block s = Some h" for h
  proof -
    from res eq have ne: "?Q \<noteq> []" and mx: "h = Max (set ?Q)"
      by (auto simp: best_probed_alt split: if_splits)
    from ne have "set ?Q \<noteq> {}" by (metis set_empty)
    then have "Max (set ?Q) \<in> set ?Q" by (rule Max_in [OF finite_set])
    moreover have "\<forall>h'\<in>set ?Q. h' \<le> Max (set ?Q)" by simp
    ultimately show ?thesis using mx by auto
  qed
  show ?thesis using eq none some by (simp add: qualifies_iff)
qed


text \<open>Two iterations on the mock chain: height 50 qualifies, height 75 is too late.\<close>

theorem result_block_is_best_probed_witness:
  "at_loop_head (mock_chain(25 := Failed)) 50500 100 [50, 75]
     \<lparr>left = 51, right = 74, result_block = Some 50\<rparr> \<and>
   best_probed (mock_chain(25 := Failed)) 50500 [50, 75] = Some 50"
proof -
  let ?g = "mock_chain(25 := Failed)"
  let ?s1 = "\<lparr>left = 51, right = 100, result_block = Some 50\<rparr>"
  let ?s2 = "\<lparr>left = 51, right = 74, result_block = Some 50\<rparr>"
  have b1: "loop_body ?g 50500 (initial_state 100) = ?s1" and m1: "mid (initial_state 100) = 50"
    by (simp_all add: loop_body_def mid_def initial_state_def mock_chain_def)
  have b2: "loop_body ?g 50500 ?s1 = ?s2" and m2: "mid ?s1 = 75"
    by (simp_all add: loop_body_def mid_def mock_chain_def)
  have "at_loop_head ?g 50500 100 ([] @ [mid (initial_state 100)]) (loop_body ?g 50500 (initial_state 100))"
    by (rule at_loop_head.iteration [OF at_loop_head.entry]) (simp add: initial_state_def)
  then have h1: "at_loop_head ?g 50500 100 [50] ?s1" by (simp add: b1 m1)
  have "at_loop_head ?g 50500 100 ([50] @ [mid ?s1]) (loop_body ?g 50500 ?s1)"
    by (rule at_loop_head.iteration [OF h1]) simp
  then have h2: "at_loop_head ?g 50500 100 [50, 75] ?s2" by (simp add: b2 m2)
  show ?thesis using h2 result_block_is_best_probed [OF h2] by simp
qed

subsection \<open>A single failing probe\<close>

lemma loop_body_interval:
  "left s \<le> right s \<Longrightarrow> left s \<le> left (loop_body g t s) \<and> right (loop_body g t s) \<le> right s"
  using mid_bounds [of s]
  by (cases "qualifies g t (mid s)") (simp_all add: loop_body_qualifies loop_body_not_qualifies)

lemma probed_heights_in_interval:
  "f \<in> set (probed_heights g t s) \<Longrightarrow> left s \<le> f \<and> f \<le> right s"
proof (induction g t s rule: search_loop.induct)
  case (1 g t s)
  show ?case
  proof (cases "left s \<le> right s")
    case True
    from "1.prems" have "f = mid s \<or> f \<in> set (probed_heights g t (loop_body g t s))"
      using probed_heights_step [OF True, of g t] by simp
    then show ?thesis
      using "1.IH" [OF True] mid_bounds [OF True] loop_body_interval [OF True, of g t] by force
  next
    case False
    then show ?thesis using "1.prems" by (simp add: probed_heights_exit)
  qed
qed

lemma qualifies_fun_upd: "h \<noteq> f \<Longrightarrow> qualifies (g(f := Failed)) t h = qualifies g t h"
  by (simp add: qualifies_def)

lemma not_qualifies_failed: "\<not> qualifies (g(f := Failed)) t f"
  by (simp add: qualifies_def)

lemma loop_body_fun_upd:
  "mid s \<noteq> f \<or> \<not> qualifies g t f \<Longrightarrow> loop_body (g(f := Failed)) t s = loop_body g t s"
  by (auto simp: loop_body_def qualifies_def split: probe.splits)

text \<open>A failure at a height that the run does not probe, or that does not qualify, changes nothing.\<close>

lemma search_loop_failure_unseen:
  "\<not> qualifies g t f \<or> f \<notin> set (probed_heights g t s) \<Longrightarrow>
     search_loop (g(f := Failed)) t s = search_loop g t s"
proof (induction g t s rule: search_loop.induct)
  case (1 g t s)
  show ?case
  proof (cases "left s \<le> right s")
    case True
    have here: "mid s \<noteq> f \<or> \<not> qualifies g t f"
      using "1.prems" probed_heights_step [OF True, of g t] by auto
    have later: "\<not> qualifies g t f \<or> f \<notin> set (probed_heights g t (loop_body g t s))"
      using "1.prems" probed_heights_step [OF True, of g t] by auto
    have "search_loop (g(f := Failed)) t s = search_loop (g(f := Failed)) t (loop_body g t s)"
      using search_loop_step [OF True, of "g(f := Failed)" t] loop_body_fun_upd [OF here] by simp
    also have "\<dots> = search_loop g t (loop_body g t s)"
      by (rule "1.IH" [OF True later])
    also have "\<dots> = search_loop g t s"
      by (rule search_loop_step [OF True, symmetric])
    finally show ?thesis .
  next
    case False
    then show ?thesis by (simp add: search_loop_exit)
  qed
qed

text \<open>On an interval where every height qualifies the loop climbs to the top.\<close>

lemma search_loop_all_qualify:
  "(\<forall>h. left s \<le> h \<and> h \<le> right s \<longrightarrow> qualifies g t h) \<Longrightarrow>
     result_block (search_loop g t s) = (if left s \<le> right s then Some (right s) else result_block s)"
proof (induction g t s rule: search_loop.induct)
  case (1 g t s)
  show ?case
  proof (cases "left s \<le> right s")
    case True
    have q: "qualifies g t (mid s)" using "1.prems" mid_bounds [OF True] by blast
    let ?s' = "loop_body g t s"
    have s': "?s' = s\<lparr>left := mid s + 1, result_block := Some (mid s)\<rparr>"
      by (rule loop_body_qualifies [OF q])
    have "\<forall>h. left ?s' \<le> h \<and> h \<le> right ?s' \<longrightarrow> qualifies g t h"
      using "1.prems" mid_bounds [OF True] by (simp add: s')
    from "1.IH" [OF True this]
    have "result_block (search_loop g t ?s') =
            (if mid s + 1 \<le> right s then Some (right s) else Some (mid s))"
      by (simp add: s')
    moreover have "\<not> mid s + 1 \<le> right s \<Longrightarrow> mid s = right s"
      using mid_bounds [OF True] by simp
    ultimately show ?thesis
      using True search_loop_step [OF True, of g t] by auto
  next
    case False
    then show ?thesis by (simp add: search_loop_exit)
  qed
qed


text \<open>
  On a total, monotone chain, a failure at a qualifying height that the run probes cuts the
  search off below it: the loop climbs to the height just under the failure.
\<close>

lemma search_loop_failure_seen:
  "total_upto g latest \<Longrightarrow> monotone_upto g latest \<Longrightarrow> qualifies g t f \<Longrightarrow>
   0 \<le> left s \<Longrightarrow> right s \<le> latest \<Longrightarrow>
   result_block s = (if left s = 0 then None else Some (left s - 1)) \<Longrightarrow>
   f \<in> set (probed_heights g t s) \<Longrightarrow>
   result_block (search_loop (g(f := Failed)) t s) = (if f = 0 then None else Some (f - 1))"
proof (induction g t s rule: search_loop.induct)
  case (1 g t s)
  note tot = "1.prems"(1) and mono = "1.prems"(2) and qf = "1.prems"(3)
    and l0 = "1.prems"(4) and r = "1.prems"(5) and res = "1.prems"(6) and probed = "1.prems"(7)
  let ?g' = "g(f := Failed)"
  have guard: "left s \<le> right s"
    using probed probed_heights_exit [of s g t] by force
  have f_range: "left s \<le> f \<and> f \<le> right s"
    by (rule probed_heights_in_interval [OF probed])
  show ?case
  proof (cases "mid s = f")
    case True
    let ?s1 = "s\<lparr>right := f - 1\<rparr>"
    have "\<not> qualifies ?g' t (mid s)"
      using not_qualifies_failed [of g f t] True by simp
    then have "loop_body ?g' t s = ?s1"
      using True by (simp add: loop_body_not_qualifies)
    then have step: "search_loop ?g' t s = search_loop ?g' t ?s1"
      using search_loop_step [OF guard, of ?g' t] by simp
    have "\<forall>h. left ?s1 \<le> h \<and> h \<le> right ?s1 \<longrightarrow> qualifies ?g' t h"
    proof (intro allI impI)
      fix h assume h: "left ?s1 \<le> h \<and> h \<le> right ?s1"
      then have "0 \<le> h" "h \<le> f" "f \<le> latest" "h \<noteq> f" using l0 r f_range by simp_all
      then show "qualifies ?g' t h"
        using qualifies_downward [OF tot mono _ _ _ qf, of h] by (simp add: qualifies_fun_upd)
    qed
    from search_loop_all_qualify [OF this]
    have "result_block (search_loop ?g' t ?s1) =
            (if left s \<le> f - 1 then Some (f - 1) else result_block s)"
      by simp
    moreover have "\<not> left s \<le> f - 1 \<Longrightarrow> left s = f" using f_range by simp
    ultimately have "result_block (search_loop ?g' t ?s1) = (if f = 0 then None else Some (f - 1))"
      using res l0 by auto
    then show ?thesis unfolding step .
  next
    case False
    have same: "loop_body ?g' t s = loop_body g t s"
      using False by (simp add: loop_body_fun_upd)
    have step: "search_loop ?g' t s = search_loop ?g' t (loop_body g t s)"
      using search_loop_step [OF guard, of ?g' t] same by simp
    have later: "f \<in> set (probed_heights g t (loop_body g t s))"
      using probed False probed_heights_step [OF guard, of g t] by simp
    have inv': "0 \<le> left (loop_body g t s) \<and> right (loop_body g t s) \<le> latest \<and>
                result_block (loop_body g t s) =
                  (if left (loop_body g t s) = 0 then None else Some (left (loop_body g t s) - 1))"
      using l0 r res mid_bounds [OF guard]
      by (cases "qualifies g t (mid s)") (simp_all add: loop_body_qualifies loop_body_not_qualifies)
    have "result_block (search_loop ?g' t (loop_body g t s)) = (if f = 0 then None else Some (f - 1))"
      by (rule "1.IH" [OF guard tot mono qf _ _ _ later]) (simp_all add: inv')
    then show ?thesis unfolding step .
  qed
qed

lemma probed_heights_initial_range:
  "f \<in> set (probed_heights g t (initial_state latest)) \<Longrightarrow> 0 \<le> f \<and> f \<le> latest"
  using probed_heights_in_interval [of f g t "initial_state latest"]
  by (simp add: initial_state_def)

text \<open>
  Claim C2, as amended. A probe made to fail at a single height \<open>f\<close> leaves the result
  as it is when \<open>f\<close> is not a qualifying height (its probe already fails, its block is
  absent or its timestamp is after the target) or when the failure-free run never probes
  \<open>f\<close>; this holds for every oracle. On a total, monotone chain it is also the only way:
  when \<open>f\<close> qualifies and the failure-free run probes it, the run with the failure returns
  \<open>f - 1\<close> (\<open>None\<close> when \<open>f = 0\<close>), which is not what the failure-free run returns.
\<close>

theorem single_probe_failure:
  "(\<not> (\<exists>ts. g f = Block ts \<and> ts \<le> t) \<or> f \<notin> set (probed_heights g t (initial_state latest)) \<longrightarrow>
      find_last_block_of_day (Inr latest) (g(f := Failed)) t = find_last_block_of_day (Inr latest) g t) \<and>
   (total_upto g latest \<and> monotone_upto g latest \<and> (\<exists>ts. g f = Block ts \<and> ts \<le> t) \<and>
    f \<in> set (probed_heights g t (initial_state latest)) \<longrightarrow>
      find_last_block_of_day (Inr latest) (g(f := Failed)) t = Inr (if f = 0 then None else Some (f - 1)) \<and>
      find_last_block_of_day (Inr latest) (g(f := Failed)) t \<noteq> find_last_block_of_day (Inr latest) g t)"
proof -
  let ?g' = "g(f := Failed)"
  let ?s0 = "initial_state latest"
  have unseen: "find_last_block_of_day (Inr latest) ?g' t = find_last_block_of_day (Inr latest) g t"
    if "\<not> qualifies g t f \<or> f \<notin> set (probed_heights g t ?s0)"
    using search_loop_failure_unseen [OF that] by (simp add: find_last_unfold)
  have seen: "find_last_block_of_day (Inr latest) ?g' t = Inr (if f = 0 then None else Some (f - 1)) \<and>
      find_last_block_of_day (Inr latest) ?g' t \<noteq> find_last_block_of_day (Inr latest) g t"
    if tot: "total_upto g latest" and mono: "monotone_upto g latest" and qf: "qualifies g t f"
      and probed: "f \<in> set (probed_heights g t ?s0)"
  proof -
    have res': "result_block (search_loop ?g' t ?s0) = (if f = 0 then None else Some (f - 1))"
      by (rule search_loop_failure_seen [OF tot mono qf _ _ _ probed])
         (simp_all add: initial_state_def)
    have f_range: "0 \<le> f \<and> f \<le> latest" by (rule probed_heights_initial_range [OF probed])
    have "result_block (search_loop g t ?s0) \<noteq> (if f = 0 then None else Some (f - 1))"
    proof (cases "f = 0")
      case True
      then show ?thesis
        using search_loop_monotone_result(2) [OF tot mono, of t] qf f_range by auto
    next
      case False
      then show ?thesis
        using search_loop_monotone_result(1) [OF tot mono, of t "f - 1"] qf f_range by auto
    qed
    then show ?thesis using res' by (simp add: find_last_unfold)
  qed
  show ?thesis using unseen seen unfolding qualifies_iff by blast
qed

text \<open>
  On the mock chain with target 50500: a failure at 75, which does not qualify, changes
  nothing; a failure at 50, which qualifies and is probed, gives 49.
\<close>

theorem single_probe_failure_witness:
  "\<not> (\<exists>ts. mock_chain 75 = Block ts \<and> ts \<le> 50500) \<and>
   find_last_block_of_day (Inr 100 :: unit + int) (mock_chain(75 := Failed)) 50500
     = find_last_block_of_day (Inr 100) mock_chain 50500 \<and>
   total_upto mock_chain 100 \<and> monotone_upto mock_chain 100 \<and>
   (\<exists>ts. mock_chain 50 = Block ts \<and> ts \<le> 50500) \<and>
   50 \<in> set (probed_heights mock_chain 50500 (initial_state 100)) \<and>
   find_last_block_of_day (Inr 100 :: unit + int) (mock_chain(50 := Failed)) 50500 = Inr (Some 49)"
proof -
  have a: "\<not> (\<exists>ts. mock_chain 75 = Block ts \<and> ts \<le> 50500)"
    by (simp add: mock_chain_def)
  have b: "\<exists>ts. mock_chain 50 = Block ts \<and> ts \<le> 50500"
    by (simp add: mock_chain_def)
  have c: "50 \<in> set (probed_heights mock_chain 50500 (initial_state 100))"
    by code_simp
  note tot = total_upto_mock_chain [of 100] and mono = monotone_upto_mock_chain [of 100]
  have "find_last_block_of_day (Inr 100 :: unit + int) (mock_chain(75 := Failed)) 50500
     = find_last_block_of_day (Inr 100) mock_chain 50500"
    using a single_probe_failure [of mock_chain 75 50500 100] by blast
  moreover have "find_last_block_of_day (Inr 100 :: unit + int) (mock_chain(50 := Failed)) 50500
     = Inr (if (50::int) = 0 then None else Some (50 - 1))"
    using b c tot mono single_probe_failure [of mock_chain 50 50500 100] by blast
  ultimately show ?thesis using a b c tot mono by simp
qed

text \<open>
  Claim C2 as stated fails on the mock chain with target 100000, where every height
  qualifies. Without failures the search returns 100. With the probe of height 100
  failing it returns 99, although the qualifying heights 50, 75, 88, 94, 97 and 99 are all
  probed, with success, before height 100 is probed at all.
\<close>

theorem single_probe_failure_counterexample:
  "total_upto mock_chain 100 \<and> monotone_upto mock_chain 100 \<and>
   find_last_block_of_day (Inr 100 :: unit + int) mock_chain 100000 = Inr (Some 100) \<and>
   find_last_block_of_day (Inr 100 :: unit + int) (mock_chain(100 := Failed)) 100000 = Inr (Some 99) \<and>
   probed_heights (mock_chain(100 := Failed)) 100000 (initial_state 100) = [50, 75, 88, 94, 97, 99, 100] \<and>
   qualifies (mock_chain(100 := Failed)) 100000 99 \<and>
   find_last_block_of_day (Inr 100 :: unit + int) (mock_chain(100 := Failed)) 100000
     \<noteq> find_last_block_of_day (Inr 100) mock_chain 100000"
proof -
  have free: "find_last_block_of_day (Inr 100 :: unit + int) mock_chain 100000 = Inr (Some 100)"
    by code_simp
  have failing: "find_last_block_of_day (Inr 100 :: unit + int) (mock_chain(100 := Failed)) 100000 = Inr (Some 99)"
    by code_simp
  have probes: "probed_heights (mock_chain(100 := Failed)) 100000 (initial_state 100) = [50, 75, 88, 94, 97, 99, 100]"
    by code_simp
  have q: "qualifies (mock_chain(100 := Failed)) 100000 99"
    by (simp add: qualifies_def mock_chain_def)
  show ?thesis
    using free failing probes q total_upto_mock_chain [of 100] monotone_upto_mock_chain [of 100] by simp
qed


section \<open>Properties of the RPC gateway\<close>

lemma make_rpc_call_count: "snd (make_rpc_call urlopen sent rpc_method rpc_params) = Suc sent"
  by (simp add: make_rpc_call_def Let_def)

lemma make_rpc_call_object:
  assumes "urlopen sent (rpc_payload rpc_method rpc_params) = Loads (JObj kvs)"
  shows "fst (make_rpc_call urlopen sent rpc_method rpc_params) =
           (case map_of kvs ''error'' of
              Some err \<Rightarrow> Inl (RPCError err)
            | None \<Rightarrow> (case map_of kvs ''result'' of
                         Some v \<Rightarrow> Inr v
                       | None \<Rightarrow> Inl (KeyError ''result'')))"
proof (cases "map_of kvs ''error''")
  case None
  then have "''error'' \<notin> fst ` set kvs" by (simp add: map_of_eq_None_iff)
  then show ?thesis
    using assms None by (simp add: make_rpc_call_def Let_def split: option.splits)
next
  case (Some err)
  then have "''error'' \<in> fst ` set kvs" by (metis map_of_eq_None_iff option.distinct(1))
  then show ?thesis
    using assms Some by (simp add: make_rpc_call_def Let_def)
qed

lemma make_rpc_call_not_object:
  assumes "urlopen sent (rpc_payload rpc_method rpc_params) = Loads j" and "\<forall>kvs. j \<noteq> JObj kvs"
  shows "fst (make_rpc_call urlopen sent rpc_method rpc_params) = Inl TypeError"
  using assms
  by (cases j) (simp_all add: make_rpc_call_def Let_def split: bool.splits)

text \<open>
  Claim C5, as amended. One call of \<open>_make_rpc_call\<close> sends one request, whatever
  happens (no retry). It raises the network error exactly when the request raises
  \<open>URLError\<close>, the invalid-JSON error exactly when it raises \<open>JSONDecodeError\<close>, and the
  RPC error, carrying the member's value, exactly when the parsed response is an object
  with an \<open>error\<close> member. It returns a value exactly when the parsed response is an
  object with no \<open>error\<close> member and with a \<open>result\<close> member, and the value is that
  member's, unchanged. An object with neither member raises \<open>KeyError\<close>.
\<close>

theorem make_rpc_call_outcomes:
  "snd (make_rpc_call urlopen sent rpc_method rpc_params) = Suc sent \<and>
   (fst (make_rpc_call urlopen sent rpc_method rpc_params) = Inl (NetworkError e) \<longleftrightarrow>
      urlopen sent (rpc_payload rpc_method rpc_params) = RaisesURLError e) \<and>
   (fst (make_rpc_call urlopen sent rpc_method rpc_params) = Inl (InvalidJSONResponse e) \<longleftrightarrow>
      urlopen sent (rpc_payload rpc_method rpc_params) = RaisesJSONDecodeError e) \<and>
   (fst (make_rpc_call urlopen sent rpc_method rpc_params) = Inl (RPCError err) \<longleftrightarrow>
      (\<exists>kvs. urlopen sent (rpc_payload rpc_method rpc_params) = Loads (JObj kvs) \<and>
             map_of kvs ''error'' = Some err)) \<and>
   (fst (make_rpc_call urlopen sent rpc_method rpc_params) = Inr v \<longleftrightarrow>
      (\<exists>kvs. urlopen sent (rpc_payload rpc_method rpc_params) = Loads (JObj kvs) \<and>
             map_of kvs ''error'' = None \<and> map_of kvs ''result'' = Some v)) \<and>
   (fst (make_rpc_call urlopen sent rpc_method rpc_params) = Inl (KeyError ''result'') \<longleftrightarrow>
      (\<exists>kvs. urlopen sent (rpc_payload rpc_method rpc_params) = Loads (JObj kvs) \<and>
             map_of kvs ''error'' = None \<and> map_of kvs ''result'' = None))"
proof -
  let ?r = "fst (make_rpc_call urlopen sent rpc_method rpc_params)"
  let ?o = "urlopen sent (rpc_payload rpc_method rpc_params)"
  have rest: "(?r = Inl (NetworkError e) \<longleftrightarrow> ?o = RaisesURLError e) \<and>
   (?r = Inl (InvalidJSONResponse e) \<longleftrightarrow> ?o = RaisesJSONDecodeError e) \<and>
   (?r = Inl (RPCError err) \<longleftrightarrow> (\<exists>kvs. ?o = Loads (JObj kvs) \<and> map_of kvs ''error'' = Some err)) \<and>
   (?r = Inr v \<longleftrightarrow> (\<exists>kvs. ?o = Loads (JObj kvs) \<and> map_of kvs ''error'' = None \<and>
                        map_of kvs ''result'' = Some v)) \<and>
   (?r = Inl (KeyError ''result'') \<longleftrightarrow> (\<exists>kvs. ?o = Loads (JObj kvs) \<and> map_of kvs ''error'' = None \<and>
                        map_of kvs ''result'' = None))"
  proof (cases ?o)
    case (RaisesURLError x)
    then show ?thesis by (simp add: make_rpc_call_def Let_def)
  next
    case (RaisesJSONDecodeError x)
    then show ?thesis by (simp add: make_rpc_call_def Let_def)
  next
    case (RaisesOther x)
    then show ?thesis by (simp add: make_rpc_call_def Let_def)
  next
    case (Loads j)
    show ?thesis
    proof (cases "\<exists>kvs. j = JObj kvs")
      case True
      then obtain kvs where j: "j = JObj kvs" by blast
      show ?thesis
        using make_rpc_call_object [of urlopen sent rpc_method rpc_params kvs] Loads j
        by (auto split: option.splits)
    next
      case False
      then have "?r = Inl TypeError"
        using make_rpc_call_not_object [of urlopen sent rpc_method rpc_params j] Loads by blast
      then show ?thesis using Loads False by auto
    qed
  qed
  show ?thesis using make_rpc_call_count [of urlopen sent rpc_method rpc_params] rest by blast
qed

text \<open>A response with a \<open>result\<close> member: the member is returned and one request was sent.\<close>

theorem make_rpc_call_outcomes_witness:
  "make_rpc_call result_endpoint 0 ''eth_call'' [] = (Inr (JStr ''0x64''), Suc 0)"
proof -
  have "result_endpoint 0 (rpc_payload ''eth_call'' []) =
          Loads (JObj [(''jsonrpc'', JStr ''2.0''), (''id'', JNum 1), (''result'', JStr ''0x64'')])"
    by (simp add: result_endpoint_def)
  then have "fst (make_rpc_call result_endpoint 0 ''eth_call'' []) = Inr (JStr ''0x64'')"
    using make_rpc_call_outcomes [of result_endpoint 0 "''eth_call''" "[]" _ _ "JStr ''0x64''"]
    by simp
  moreover have "snd (make_rpc_call result_endpoint 0 ''eth_call'' []) = Suc 0"
    using make_rpc_call_outcomes [of result_endpoint 0 "''eth_call''" "[]"] by blast
  ultimately show ?thesis by (simp add: prod_eq_iff)
qed

text \<open>
  Claim C5 as stated fails on a response that is valid JSON, an object without an
  \<open>error\<close> member and without a \<open>result\<close> member: none of the three failures of the
  claim applies, so the claim has the call succeed, and the code raises \<open>KeyError\<close>.
\<close>

theorem make_rpc_call_counterexample:
  "bare_endpoint 0 (rpc_payload ''eth_blockNumber'' []) = Loads bare_response \<and>
   py_in ''error'' bare_response = Inr False \<and>
   make_rpc_call bare_endpoint 0 ''eth_blockNumber'' [] = (Inl (KeyError ''result''), Suc 0)"
  by (simp add: bare_endpoint_def bare_response_def make_rpc_call_def Let_def)

section \<open>Properties of the token balance encoding\<close>

lemma hex_chars_table:
  "list_all (\<lambda>c. is_hex_char (lower_char c) \<and> lower_char c \<noteq> CHR ''+'' \<and> lower_char c \<noteq> CHR ''-'' \<and>
                 digit_value c \<noteq> None \<and> c \<noteq> CHR ''_'' \<and> c \<noteq> CHR ''+'' \<and> c \<noteq> CHR ''-'' \<and>
                 \<not> py_isspace c)
     ''0123456789abcdefABCDEF''"
  by code_simp

lemma hex_char_facts:
  assumes "is_hex_char c"
  shows "is_hex_char (lower_char c)" "lower_char c \<noteq> CHR ''+''" "lower_char c \<noteq> CHR ''-''"
    "digit_value c \<noteq> None" "c \<noteq> CHR ''_''" "c \<noteq> CHR ''+''" "c \<noteq> CHR ''-''" "\<not> py_isspace c"
proof -
  have "c \<in> set ''0123456789abcdefABCDEF''" using assms unfolding is_hex_char_def .
  then have "is_hex_char (lower_char c) \<and> lower_char c \<noteq> CHR ''+'' \<and> lower_char c \<noteq> CHR ''-'' \<and>
                 digit_value c \<noteq> None \<and> c \<noteq> CHR ''_'' \<and> c \<noteq> CHR ''+'' \<and> c \<noteq> CHR ''-'' \<and>
                 \<not> py_isspace c"
    using hex_chars_table unfolding list_all_iff by blast
  then show "is_hex_char (lower_char c)" "lower_char c \<noteq> CHR ''+''" "lower_char c \<noteq> CHR ''-''"
    "digit_value c \<noteq> None" "c \<noteq> CHR ''_''" "c \<noteq> CHR ''+''" "c \<noteq> CHR ''-''" "\<not> py_isspace c"
    by blast+
qed

lemma zfill_plain:
  "length s < width \<Longrightarrow> s \<noteq> [] \<Longrightarrow> hd s \<noteq> CHR ''+'' \<Longrightarrow> hd s \<noteq> CHR ''-'' \<Longrightarrow>
     zfill width s = replicate (width - length s) (CHR ''0'') @ s"
  by (cases s) (simp_all add: zfill_def)

lemma drop_0x: "drop 2 (''0x'' @ hs) = hs"
  by simp

lemma encode_balance_of_call_unfold:
  "zfill 64 (lower hs) = padded \<Longrightarrow>
     encode_balance_of_call (''0x'' @ hs) = ''0x'' @ ''70a08231'' @ padded"
  unfolding encode_balance_of_call_def Let_def drop_0x by (simp only: append.simps)

lemma lower_hex_table:
  "list_all (\<lambda>c. lower_char c = lower_hex_digit c \<and> is_lower_hex_char (lower_char c))
     ''0123456789abcdefABCDEF''"
  by code_simp

lemma lower_char_hex:
  assumes "is_hex_char c"
  shows "lower_char c = lower_hex_digit c" "is_lower_hex_char (lower_char c)"
proof -
  have "c \<in> set ''0123456789abcdefABCDEF''" using assms unfolding is_hex_char_def .
  then have "lower_char c = lower_hex_digit c \<and> is_lower_hex_char (lower_char c)"
    using lower_hex_table unfolding list_all_iff by blast
  then show "lower_char c = lower_hex_digit c" "is_lower_hex_char (lower_char c)" by blast+
qed

lemma lower_hex:
  assumes "list_all is_hex_char hs"
  shows "lower hs = map lower_hex_digit hs" "list_all is_lower_hex_char (lower hs)"
proof -
  have each: "\<And>c. c \<in> set hs \<Longrightarrow> is_hex_char c" using assms by (simp add: list_all_iff)
  show "lower hs = map lower_hex_digit hs"
    unfolding lower_def by (rule map_cong [OF refl]) (rule lower_char_hex(1) [OF each])
  show "list_all is_lower_hex_char (lower hs)"
    unfolding lower_def list_all_iff using lower_char_hex(2) [OF each] by simp
qed

text \<open>
  Claim C8. For an address \<open>0x\<close> followed by 40 hexadecimal characters
  \<open>encode_balance_of_call\<close> returns \<open>0x\<close>, the selector \<open>70a08231\<close>, 24 zeros and the 40
  characters in lower case: 74 characters in all. Lower case is stated twice, through the
  model of \<open>str.lower()\<close> and on its own: the 40 characters are the address's with \<open>A\<close> to
  \<open>F\<close> replaced by \<open>a\<close> to \<open>f\<close>, and each of them is one of \<open>0123456789abcdef\<close>.
\<close>

theorem encode_balance_of_call_address:
  assumes "length hs = 40" and "list_all is_hex_char hs"
  shows "encode_balance_of_call (''0x'' @ hs)
           = ''0x'' @ ''70a08231'' @ replicate 24 (CHR ''0'') @ lower hs \<and>
         length (encode_balance_of_call (''0x'' @ hs)) = 74 \<and>
         list_all is_hex_char (lower hs) \<and>
         encode_balance_of_call (''0x'' @ hs)
           = ''0x'' @ ''70a08231'' @ replicate 24 (CHR ''0'') @ map lower_hex_digit hs \<and>
         list_all is_lower_hex_char (drop 34 (encode_balance_of_call (''0x'' @ hs)))"
proof -
  have len: "length (lower hs) = 40" using assms(1) by (simp add: lower_def)
  then have ne: "lower hs \<noteq> []" by auto
  have "hs \<noteq> []" using assms(1) by auto
  then have "is_hex_char (hd hs)" using assms(2) by (cases hs) simp_all
  moreover have "hd (lower hs) = lower_char (hd hs)"
    using \<open>hs \<noteq> []\<close> by (cases hs) (simp_all add: lower_def)
  ultimately have sign: "hd (lower hs) \<noteq> CHR ''+''" "hd (lower hs) \<noteq> CHR ''-''"
    using hex_char_facts(2,3) by simp_all
  have "zfill 64 (lower hs) = replicate (64 - length (lower hs)) (CHR ''0'') @ lower hs"
    by (rule zfill_plain [OF _ ne sign]) (simp add: len)
  then have z: "zfill 64 (lower hs) = replicate 24 (CHR ''0'') @ lower hs" by (simp add: len)
  have enc: "encode_balance_of_call (''0x'' @ hs)
           = ''0x'' @ ''70a08231'' @ replicate 24 (CHR ''0'') @ lower hs"
    by (rule encode_balance_of_call_unfold [OF z])
  have "\<And>c. is_hex_char c \<Longrightarrow> is_hex_char (lower_char c)"
    by (rule hex_char_facts(1))
  then have low: "list_all is_hex_char (lower hs)"
    using assms(2) by (simp add: lower_def list_all_iff)
  have total: "length (encode_balance_of_call (''0x'' @ hs)) = 74"
    unfolding enc using len by simp
  have enc': "encode_balance_of_call (''0x'' @ hs)
           = ''0x'' @ ''70a08231'' @ replicate 24 (CHR ''0'') @ map lower_hex_digit hs"
    unfolding enc by (simp only: lower_hex(1) [OF assms(2)])
  have "drop 34 (''0x'' @ ''70a08231'' @ replicate 24 (CHR ''0'') @ lower hs) = lower hs"
    by simp
  then have tail: "list_all is_lower_hex_char (drop 34 (encode_balance_of_call (''0x'' @ hs)))"
    unfolding enc using lower_hex(2) [OF assms(2)] by (simp only:)
  show ?thesis using enc total low enc' tail by blast
qed

text \<open>
  The address \<open>"0x" + "a" * 40\<close> of the specification, and the account of \<open>main()\<close>, whose
  upper-case letters come out in lower case.
\<close>

theorem encode_balance_of_call_address_witness:
  "length (replicate 40 (CHR ''a'')) = 40 \<and> list_all is_hex_char (replicate 40 (CHR ''a'')) \<and>
   encode_balance_of_call (''0x'' @ replicate 40 (CHR ''a''))
     = ''0x70a08231'' @ replicate 24 (CHR ''0'') @ replicate 40 (CHR ''a'') \<and>
   length main_address_digits = 40 \<and> list_all is_hex_char main_address_digits \<and>
   encode_balance_of_call (''0x'' @ main_address_digits)
     = ''0x70a08231'' @ ''000000000000000000000000'' @ ''7d5cea2e5fbdfecca8ccfbfe85ac021c817a7f38''"
proof -
  have l: "length (replicate 40 (CHR ''a'')) = 40" by simp
  have h: "list_all is_hex_char (replicate 40 (CHR ''a''))"
    by (simp add: list_all_iff is_hex_char_def)
  have low: "lower (replicate 40 (CHR ''a'')) = replicate 40 (CHR ''a'')"
    by (simp add: lower_def lower_char_def)
  have a: "encode_balance_of_call (''0x'' @ replicate 40 (CHR ''a''))
     = ''0x70a08231'' @ replicate 24 (CHR ''0'') @ replicate 40 (CHR ''a'')"
    using encode_balance_of_call_address [OF l h] by (simp add: low)
  have l2: "length main_address_digits = 40" by (simp add: main_address_digits_def)
  have h2: "list_all is_hex_char main_address_digits" by code_simp
  have zeros: "replicate 24 (CHR ''0'') = ''000000000000000000000000''" by code_simp
  have lowered: "map lower_hex_digit main_address_digits = ''7d5cea2e5fbdfecca8ccfbfe85ac021c817a7f38''"
    by code_simp
  have "encode_balance_of_call (''0x'' @ main_address_digits)
     = ''0x'' @ ''70a08231'' @ replicate 24 (CHR ''0'') @ map lower_hex_digit main_address_digits"
    using encode_balance_of_call_address [OF l2 h2] by blast
  then have b: "encode_balance_of_call (''0x'' @ main_address_digits)
     = ''0x70a08231'' @ ''000000000000000000000000'' @ ''7d5cea2e5fbdfecca8ccfbfe85ac021c817a7f38''"
    unfolding zeros lowered by (simp only: append.simps)
  show ?thesis using l h a l2 h2 b by blast
qed

section \<open>Properties of the token balance decoding\<close>

lemma scan_digits_hex:
  "list_all is_hex_char cs \<Longrightarrow> prev \<noteq> CHR ''_'' \<Longrightarrow>
     scan_digits cs prev acc
       = Some (foldl (\<lambda>acc c. 16 * acc + the (digit_value c)) acc cs, [])"
proof (induction cs arbitrary: prev acc)
  case Nil
  then show ?case by simp
next
  case (Cons c cs)
  then have c: "is_hex_char c" and cs: "list_all is_hex_char cs" by simp_all
  from hex_char_facts(4,5) [OF c] obtain d where d: "digit_value c = Some d" and u: "c \<noteq> CHR ''_''"
    by auto
  show ?case using Cons.IH [OF cs u] d u by simp
qed

lemma py_int16_hex:
  assumes "ds \<noteq> []" and "list_all is_hex_char ds"
  shows "py_int16 (''0x'' @ ds) = Some (int (big_endian_value ds))"
proof -
  obtain c cs where ds: "ds = c # cs" using assms(1) by (cases ds) auto
  have c: "is_hex_char c" and cs: "list_all is_hex_char cs" using assms(2) ds by simp_all
  from hex_char_facts(4,5) [OF c] obtain d where d: "digit_value c = Some d" and u: "c \<noteq> CHR ''_''"
    by auto
  have sp: "\<not> py_isspace (CHR ''0'')" by (simp add: py_isspace_def)
  have "strip_sign (dropWhile py_isspace (''0x'' @ ds)) = (False, ''0x'' @ ds)"
    using sp by (simp add: strip_sign_def)
  moreover have "strip_prefix16 (''0x'' @ ds) = c # cs"
    using u by (simp add: strip_prefix16_def ds)
  moreover have "scan_digits cs c d = Some (foldl (\<lambda>acc c. 16 * acc + the (digit_value c)) d cs, [])"
    by (rule scan_digits_hex [OF cs u])
  moreover have "big_endian_value ds = foldl (\<lambda>acc c. 16 * acc + the (digit_value c)) d cs"
    by (simp add: big_endian_value_def ds d)
  ultimately show ?thesis
    by (simp add: py_int16_def d)
qed

text \<open>
  Claim C9, as amended. \<open>decode_balance_result\<close> maps \<open>"0x"\<close> to 0 and \<open>0x\<close> followed by
  one or more hexadecimal digits to the big-endian value of the digits; it raises
  \<open>ValueError\<close> only on strings that are not of this form. (It does not raise on all of
  them: the counterexample below.)
\<close>

theorem decode_balance_result_hex:
  "decode_balance_result ''0x'' = Inr 0 \<and>
   (ds \<noteq> [] \<and> list_all is_hex_char ds \<longrightarrow>
      decode_balance_result (''0x'' @ ds) = Inr (int (big_endian_value ds))) \<and>
   (decode_balance_result s = Inl ValueError \<longrightarrow> \<not> valid_hexadecimal s)"
proof -
  have zero: "decode_balance_result ''0x'' = Inr 0" by (simp add: decode_balance_result_def)
  have digits: "decode_balance_result (''0x'' @ ds) = Inr (int (big_endian_value ds))"
    if "ds \<noteq> []" "list_all is_hex_char ds" for ds
    using that py_int16_hex [OF that] by (simp add: decode_balance_result_def)
  have "decode_balance_result s \<noteq> Inl ValueError" if v: "valid_hexadecimal s"
  proof -
    from v have s: "s = ''0x'' @ drop 2 s" and h: "list_all is_hex_char (drop 2 s)"
      unfolding valid_hexadecimal_def by (metis append_take_drop_id, blast)
    show ?thesis
    proof (cases "drop 2 s = []")
      case True
      then show ?thesis using s zero by simp
    next
      case False
      then show ?thesis using digits [OF False h] s by simp
    qed
  qed
  then show ?thesis using zero digits by blast
qed

text \<open>
  \<open>"0x64"\<close> decodes to 100, \<open>"0xff"\<close> to 255 and \<open>"0xAbC"\<close> to 2748; \<open>"0xzz"\<close> raises and
  is not hexadecimal.
\<close>

theorem decode_balance_result_hex_witness:
  "decode_balance_result ''0x64'' = Inr 100 \<and> decode_balance_result ''0xzz'' = Inl ValueError \<and>
   \<not> valid_hexadecimal ''0xzz'' \<and>
   decode_balance_result ''0xff'' = Inr 255 \<and> decode_balance_result ''0xAbC'' = Inr 2748"
proof -
  have h: "''64'' \<noteq> [] \<and> list_all is_hex_char ''64''" by (simp add: is_hex_char_def)
  have v: "int (big_endian_value ''64'') = 100" by (simp add: big_endian_value_def digit_value_def)
  have e: "decode_balance_result ''0xzz'' = Inl ValueError" by code_simp
  have first: "decode_balance_result ''0x64'' = Inr 100 \<and> decode_balance_result ''0xzz'' = Inl ValueError \<and>
      \<not> valid_hexadecimal ''0xzz''"
    using h v e decode_balance_result_hex [of "''64''" "''0xzz''"] by simp
  have h2: "''ff'' \<noteq> [] \<and> list_all is_hex_char ''ff''" by (simp add: is_hex_char_def)
  have v2: "int (big_endian_value ''ff'') = 255" by (simp add: big_endian_value_def digit_value_def)
  have second: "decode_balance_result ''0xff'' = Inr 255"
    using h2 v2 decode_balance_result_hex [of "''ff''" "''0xzz''"] by simp
  have h3: "''AbC'' \<noteq> [] \<and> list_all is_hex_char ''AbC''" by (simp add: is_hex_char_def)
  have v3: "int (big_endian_value ''AbC'') = 2748" by (simp add: big_endian_value_def digit_value_def)
  have third: "decode_balance_result ''0xAbC'' = Inr 2748"
    using h3 v3 decode_balance_result_hex [of "''AbC''" "''0xzz''"] by simp
  show ?thesis using first second third by blast
qed

text \<open>
  Claim C9 as stated fails on \<open>"-0x64"\<close>: \<open>int(s, 16)\<close> accepts a sign, so the string,
  which is not \<open>0x\<close> followed by hexadecimal digits, decodes without an error, and to a
  negative number.
\<close>

theorem decode_balance_result_counterexample:
  "decode_balance_result ''-0x64'' = Inr (- 100) \<and> \<not> valid_hexadecimal ''-0x64''"
  by (simp add: decode_balance_result_def py_int16_def strip_sign_def strip_prefix16_def
        digit_value_def py_isspace_def valid_hexadecimal_def)


section \<open>Properties of the date validation\<close>

subsection \<open>Digits\<close>

lemma digit_chars_table:
  "list_all (\<lambda>c. dchar (digit c) = c \<and> digit c < 10) ''0123456789''"
  by code_simp

lemma digit19_chars_table:
  "list_all (\<lambda>c. is_digit c \<and> 1 \<le> digit c \<and> c \<noteq> CHR ''0'' \<and> c \<noteq> CHR ''-'' \<and> c \<noteq> CHR '' '') ''123456789''"
  by code_simp

lemma dchar_table:
  "list_all (\<lambda>k. is_digit (dchar k) \<and> digit (dchar k) = k \<and> (1 \<le> k \<longrightarrow> is_digit19 (dchar k)) \<and>
                 dchar k \<noteq> CHR ''-'')
     [0, 1, 2, 3, 4, 5, 6, 7, 8, 9]"
  by code_simp

lemma is_digit_facts:
  assumes "is_digit c"
  shows "dchar (digit c) = c" "digit c < 10"
  using assms digit_chars_table unfolding is_digit_def list_all_iff by blast+

lemma is_digit19_facts:
  assumes "is_digit19 c"
  shows "is_digit c" "1 \<le> digit c" "c \<noteq> CHR ''0''" "c \<noteq> CHR ''-''" "c \<noteq> CHR '' ''"
  using assms digit19_chars_table unfolding is_digit19_def list_all_iff by blast+

lemma dchar_facts:
  assumes "k < 10"
  shows "is_digit (dchar k)" "digit (dchar k) = k" "1 \<le> k \<Longrightarrow> is_digit19 (dchar k)"
    "dchar k \<noteq> CHR ''-''"
proof -
  have "k \<in> set [0, 1, 2, 3, 4, 5, 6, 7, 8, 9]" using assms by simp presburger
  then have "is_digit (dchar k) \<and> digit (dchar k) = k \<and> (1 \<le> k \<longrightarrow> is_digit19 (dchar k)) \<and>
                 dchar k \<noteq> CHR ''-''"
    using dchar_table unfolding list_all_iff by blast
  then show "is_digit (dchar k)" "digit (dchar k) = k" "1 \<le> k \<Longrightarrow> is_digit19 (dchar k)"
    "dchar k \<noteq> CHR ''-''"
    by blast+
qed

lemma dchar_small: "dchar 0 = CHR ''0''" "dchar 1 = CHR ''1''" "dchar 2 = CHR ''2''" "dchar 3 = CHR ''3''"
  "dchar (Suc 0) = CHR ''1''"
  by (simp_all add: dchar_def)

lemma digit_small: "digit (CHR ''0'') = 0" "digit (CHR ''1'') = 1" "digit (CHR ''2'') = 2" "digit (CHR ''3'') = 3"
  by (simp_all add: digit_def)

lemma in_012: "b \<in> set ''012'' \<longleftrightarrow> is_digit b \<and> digit b \<le> 2"
proof
  assume "b \<in> set ''012''"
  then have "b = CHR ''0'' \<or> b = CHR ''1'' \<or> b = CHR ''2''" by simp
  then show "is_digit b \<and> digit b \<le> 2" by (auto simp: is_digit_def digit_small)
next
  assume a: "is_digit b \<and> digit b \<le> 2"
  then have "digit b = 0 \<or> digit b = 1 \<or> digit b = 2" by linarith
  then have "dchar (digit b) \<in> set ''012''" by (auto simp: dchar_small)
  then show "b \<in> set ''012''" using a by (simp add: is_digit_facts(1))
qed

lemma in_01: "b \<in> set ''01'' \<longleftrightarrow> is_digit b \<and> digit b \<le> 1"
proof
  assume "b \<in> set ''01''"
  then have "b = CHR ''0'' \<or> b = CHR ''1''" by simp
  then show "is_digit b \<and> digit b \<le> 1" by (auto simp: is_digit_def digit_small)
next
  assume a: "is_digit b \<and> digit b \<le> 1"
  then have "digit b = 0 \<or> digit b = 1" by linarith
  then have "dchar (digit b) \<in> set ''01''" by (auto simp: dchar_small)
  then show "b \<in> set ''01''" using a by (simp add: is_digit_facts(1))
qed

lemma in_12: "a \<in> set ''12'' \<longleftrightarrow> is_digit a \<and> 1 \<le> digit a \<and> digit a \<le> 2"
proof
  assume "a \<in> set ''12''"
  then have "a = CHR ''1'' \<or> a = CHR ''2''" by simp
  then show "is_digit a \<and> 1 \<le> digit a \<and> digit a \<le> 2" by (auto simp: is_digit_def digit_small)
next
  assume a: "is_digit a \<and> 1 \<le> digit a \<and> digit a \<le> 2"
  then have "digit a = 1 \<or> digit a = 2" by linarith
  then have "dchar (digit a) \<in> set ''12''" by (auto simp: dchar_small)
  then show "a \<in> set ''12''" using a by (simp add: is_digit_facts(1))
qed


lemma two_digits_tens:
  "a < 10 \<Longrightarrow> b < 10 \<Longrightarrow> two_digits (10 * a + b) = [dchar a, dchar b]"
  by (simp add: two_digits_def)

lemma two_digits_units: "m < 10 \<Longrightarrow> two_digits m = [CHR ''0'', dchar m]"
  by (simp add: two_digits_def dchar_small)

lemma char_consts:
  "is_digit (CHR ''0'')" "is_digit (CHR ''1'')" "is_digit (CHR ''2'')" "is_digit (CHR ''3'')"
  "\<not> is_digit19 (CHR ''0'')" "is_digit19 (CHR ''1'')" "is_digit19 (CHR ''3'')"
  "\<not> is_digit19 (CHR '' '')" "\<not> is_digit (CHR ''-'')" "\<not> is_digit (CHR '' '')"
  by (simp_all add: is_digit_def is_digit19_def)

subsection \<open>The year group\<close>

lemma year_digits:
  fixes a b c e :: nat
  assumes "a < 10" "b < 10" "c < 10" "e < 10"
  defines "y \<equiv> 1000 * a + 100 * b + 10 * c + e"
  shows "y div 1000 mod 10 = a" "y div 100 mod 10 = b" "y div 10 mod 10 = c" "y mod 10 = e"
    "y \<le> 9999"
proof -
  have d3: "y div 1000 = a" by (rule div_nat_eqI) (use assms in \<open>simp_all add: y_def\<close>)
  have d2: "y div 100 = 10 * a + b" by (rule div_nat_eqI) (use assms in \<open>simp_all add: y_def\<close>)
  have d1: "y div 10 = 10 * (10 * a + b) + c" by (rule div_nat_eqI) (use assms in \<open>simp_all add: y_def\<close>)
  have d0: "y = 10 * (10 * (10 * a + b) + c) + e" by (simp add: y_def)
  show "y div 1000 mod 10 = a" using d3 assms(1) by simp
  show "y div 100 mod 10 = b" using d2 assms(2) by simp
  have "(10 * (10 * a + b) + c) mod 10 = c" using assms(3) by (simp only: mod_mult_self4 mod_less)
  then show "y div 10 mod 10 = c" using d1 by simp
  have "(10 * (10 * (10 * a + b) + c) + e) mod 10 = e"
    using assms(4) by (simp only: mod_mult_self4 mod_less)
  then show "y mod 10 = e" by (simp only: d0)
  show "y \<le> 9999" using assms by (simp add: y_def)
qed

lemma digits_year:
  fixes y :: nat
  assumes "y \<le> 9999"
  shows "1000 * (y div 1000 mod 10) + 100 * (y div 100 mod 10) + 10 * (y div 10 mod 10) + y mod 10 = y"
proof -
  have a: "y div 1000 mod 10 = y div 1000" using assms by simp
  have e1: "y = 10 * (y div 10) + y mod 10" by simp
  have e2: "y div 10 = 10 * (y div 100) + y div 10 mod 10"
    using mult_div_mod_eq [of 10 "y div 10"] by (simp add: div_mult2_eq [symmetric])
  have e3: "y div 100 = 10 * (y div 1000) + y div 100 mod 10"
    using mult_div_mod_eq [of 10 "y div 100"] by (simp add: div_mult2_eq [symmetric])
  show ?thesis using a e1 e2 e3 by linarith
qed

lemma match_year_sound:
  assumes "match_year s = Some (y, r)"
  shows "y \<le> 9999 \<and> s = digits4 y @ r"
proof -
  from assms obtain a b c e where s: "s = a # b # c # e # r"
    and dig: "is_digit a" "is_digit b" "is_digit c" "is_digit e"
    and y: "y = 1000 * digit a + 100 * digit b + 10 * digit c + digit e"
    by (auto simp: match_year_def split: list.splits if_splits)
  note lt = is_digit_facts(2) [OF dig(1)] is_digit_facts(2) [OF dig(2)]
    is_digit_facts(2) [OF dig(3)] is_digit_facts(2) [OF dig(4)]
  have "digits4 y = [a, b, c, e]"
    unfolding digits4_def y
    by (simp only: year_digits(1-4) [OF lt] is_digit_facts(1) [OF dig(1)] is_digit_facts(1) [OF dig(2)]
        is_digit_facts(1) [OF dig(3)] is_digit_facts(1) [OF dig(4)])
  moreover have "y \<le> 9999" unfolding y by (rule year_digits(5) [OF lt])
  ultimately show ?thesis using s by simp
qed

lemma match_year_digits:
  assumes "a < 10" "b < 10" "c < 10" "e < 10"
  shows "match_year ([dchar a, dchar b, dchar c, dchar e] @ r)
           = Some (1000 * a + 100 * b + 10 * c + e, r)"
  by (simp add: match_year_def dchar_facts(1,2) [OF assms(1)] dchar_facts(1,2) [OF assms(2)]
        dchar_facts(1,2) [OF assms(3)] dchar_facts(1,2) [OF assms(4)])

lemma match_year_complete:
  assumes "y \<le> 9999"
  shows "match_year (digits4 y @ r) = Some (y, r)"
proof -
  define a b c e where "a = y div 1000 mod 10" and "b = y div 100 mod 10"
    and "c = y div 10 mod 10" and "e = y mod 10"
  have lt: "a < 10" "b < 10" "c < 10" "e < 10" by (simp_all add: a_def b_def c_def e_def)
  have y: "1000 * a + 100 * b + 10 * c + e = y"
    unfolding a_def b_def c_def e_def by (rule digits_year [OF assms])
  have "digits4 y = [dchar a, dchar b, dchar c, dchar e]"
    by (simp only: digits4_def a_def b_def c_def e_def)
  then show ?thesis using match_year_digits [OF lt, of r] y by simp
qed


subsection \<open>Branches\<close>

lemma branch1_mem:
  "(n, r) \<in> set (branch1 p v s) \<longleftrightarrow> (\<exists>a. s = a # r \<and> p a \<and> n = v a)"
  by (cases s) (auto simp: branch1_def)

lemma branch2_mem:
  "(n, r) \<in> set (branch2 p q v s) \<longleftrightarrow> (\<exists>a b. s = a # b # r \<and> p a \<and> q b \<and> n = v a b)"
proof (cases s)
  case Nil
  then show ?thesis by (simp add: branch2_def)
next
  case (Cons a s')
  then show ?thesis by (cases s') (auto simp: branch2_def)
qed

lemma branch1_Cons: "branch1 p v (a # r) = (if p a then [(v a, r)] else [])"
  by (simp add: branch1_def)

lemma branch2_Cons: "branch2 p q v (a # b # r) = (if p a \<and> q b then [(v a b, r)] else [])"
  by (simp add: branch2_def)

lemma branch2_short: "branch2 p q v [a] = []" "branch2 p q v [] = []"
  by (simp_all add: branch2_def)

subsection \<open>The month group\<close>

lemma month_alternatives_sound:
  assumes "(m, r) \<in> set (month_alternatives s)"
  shows "1 \<le> m \<and> m \<le> 12 \<and> (\<exists>ms\<in>set (month_spellings m). s = ms @ r)"
proof -
  from assms consider
      (two) b where "s = CHR ''1'' # b # r" "is_digit b" "digit b \<le> 2" "m = 10 + digit b"
    | (zero) b where "s = CHR ''0'' # b # r" "is_digit19 b" "m = digit b"
    | (one) a where "s = a # r" "is_digit19 a" "m = digit a"
    unfolding month_alternatives_def set_append Un_iff branch1_mem branch2_mem in_012
    by (auto simp: int2_def digit_small)
  then show ?thesis
  proof cases
    case two
    have "two_digits m = [dchar 1, dchar (digit b)]"
      unfolding two(4) using two_digits_tens [of 1 "digit b"] is_digit_facts(2) [OF two(2)] by simp
    then have "two_digits m = [CHR ''1'', b]"
      by (simp add: dchar_small is_digit_facts(1) [OF two(2)])
    then show ?thesis using two by (simp add: month_spellings_def)
  next
    case zero
    note d = is_digit19_facts(1,2) [OF zero(2)]
    have lt: "m < 10" using is_digit_facts(2) [OF d(1)] zero(3) by simp
    have "two_digits m = [CHR ''0'', b]"
      using two_digits_units [OF lt] is_digit_facts(1) [OF d(1)] zero(3) by simp
    then show ?thesis using zero d lt by (simp add: month_spellings_def)
  next
    case one
    note d = is_digit19_facts(1,2) [OF one(2)]
    have lt: "m < 10" using is_digit_facts(2) [OF d(1)] one(3) by simp
    have "[dchar m] = [a]" using is_digit_facts(1) [OF d(1)] one(3) by simp
    then show ?thesis using one d lt by (simp add: month_spellings_def)
  qed
qed

lemma month_alternatives_1x:
  assumes "is_digit b" "digit b \<le> 2"
  shows "month_alternatives (CHR ''1'' # b # r) = [(10 + digit b, r), (1, b # r)]"
proof -
  have "b \<in> set ''012''" using assms by (simp only: in_012)
  then show ?thesis
    unfolding month_alternatives_def branch1_Cons branch2_Cons
    by (simp add: char_consts digit_small int2_def)
qed

lemma month_alternatives_0x:
  assumes "is_digit19 b"
  shows "month_alternatives (CHR ''0'' # b # r) = [(digit b, r)]"
  unfolding month_alternatives_def branch1_Cons branch2_Cons
  using assms by (simp add: char_consts digit_small int2_def)

lemma month_alternatives_x:
  assumes "is_digit19 a"
  shows "month_alternatives (a # CHR ''-'' # r) = [(digit a, CHR ''-'' # r)]"
  unfolding month_alternatives_def branch1_Cons branch2_Cons
  using assms is_digit19_facts(3) [OF assms] by (simp add: char_consts is_digit19_def)

text \<open>
  A continuation that wants a hyphen next, as the one in \<open>match_format\<close> does, sees the
  month as it is spelt.
\<close>

lemma month_alternatives_complete:
  assumes m: "1 \<le> m" "m \<le> 12" and ms: "ms \<in> set (month_spellings m)"
    and k: "\<And>m' c r'. c \<noteq> CHR ''-'' \<Longrightarrow> k (m', c # r') = None"
  shows "first_match k (month_alternatives (ms @ CHR ''-'' # r)) = k (m, CHR ''-'' # r)"
proof -
  from ms consider (two) "ms = two_digits m" | (one) "m < 10" "ms = [dchar m]"
    by (auto simp: month_spellings_def split: if_splits)
  then show ?thesis
  proof cases
    case two
    show ?thesis
    proof (cases "m < 10")
      case True
      have b: "is_digit19 (dchar m)" using dchar_facts(3) [OF True] m(1) by simp
      have "ms = [CHR ''0'', dchar m]" using two two_digits_units [OF True] by simp
      then show ?thesis
        using month_alternatives_0x [OF b] dchar_facts(2) [OF True]
        by (simp split: option.splits)
    next
      case False
      define u where "u = m - 10"
      have u: "u \<le> 2" "m = 10 * 1 + u" using False m(2) by (simp_all add: u_def)
      then have lt: "u < 10" by simp
      have "ms = [CHR ''1'', dchar u]"
        using two two_digits_tens [of 1 u] lt u(2) by (simp add: dchar_small)
      moreover have "month_alternatives (CHR ''1'' # dchar u # CHR ''-'' # r)
                       = [(10 + u, CHR ''-'' # r), (1, dchar u # CHR ''-'' # r)]"
        using month_alternatives_1x [OF dchar_facts(1) [OF lt], of "CHR ''-'' # r"]
          dchar_facts(2) [OF lt] u(1) by simp
      ultimately show ?thesis
        using k [OF dchar_facts(4) [OF lt]] u(2) by (simp split: option.splits)
    qed
  next
    case one
    have b: "is_digit19 (dchar m)" using dchar_facts(3) [OF one(1)] m(1) by simp
    show ?thesis
      using month_alternatives_x [OF b] dchar_facts(2) [OF one(1)] one(2)
      by (simp split: option.splits)
  qed
qed


subsection \<open>The day group\<close>

lemma day_alternatives_sound:
  assumes "(d, r) \<in> set (day_alternatives s)"
  shows "1 \<le> d \<and> d \<le> 31 \<and> (\<exists>ds\<in>set (day_spellings d). s = ds @ r)"
proof -
  from assms consider
      (thirty) b where "s = CHR ''3'' # b # r" "is_digit b" "digit b \<le> 1" "d = 10 * 3 + digit b"
    | (tens) a b where "s = a # b # r" "is_digit a" "1 \<le> digit a" "digit a \<le> 2" "is_digit b"
        "d = 10 * digit a + digit b"
    | (zero) b where "s = CHR ''0'' # b # r" "is_digit19 b" "d = digit b"
    | (one) a where "s = a # r" "is_digit19 a" "d = digit a"
    | (space) b where "s = CHR '' '' # b # r" "is_digit19 b" "d = digit b"
    unfolding day_alternatives_def set_append Un_iff branch1_mem branch2_mem in_01 in_12
    by (auto simp: int2_def int_second_def digit_small)
  then show ?thesis
  proof cases
    case thirty
    have "two_digits d = [dchar 3, dchar (digit b)]"
      unfolding thirty(4) using two_digits_tens [of 3 "digit b"] is_digit_facts(2) [OF thirty(2)] by simp
    then have "two_digits d = [CHR ''3'', b]"
      by (simp add: dchar_small is_digit_facts(1) [OF thirty(2)])
    then show ?thesis using thirty by (simp add: day_spellings_def)
  next
    case tens
    have "two_digits d = [dchar (digit a), dchar (digit b)]"
      unfolding tens(6)
      using two_digits_tens [of "digit a" "digit b"] is_digit_facts(2) [OF tens(2)]
        is_digit_facts(2) [OF tens(5)] by simp
    then have "two_digits d = [a, b]"
      by (simp add: is_digit_facts(1) [OF tens(2)] is_digit_facts(1) [OF tens(5)])
    moreover have "1 \<le> d \<and> d \<le> 31"
      using tens(3,4,6) is_digit_facts(2) [OF tens(5)] by simp
    ultimately show ?thesis using tens(1) by (simp add: day_spellings_def)
  next
    case zero
    note d = is_digit19_facts(1,2) [OF zero(2)]
    have lt: "d < 10" using is_digit_facts(2) [OF d(1)] zero(3) by simp
    have "two_digits d = [CHR ''0'', b]"
      using two_digits_units [OF lt] is_digit_facts(1) [OF d(1)] zero(3) by simp
    then show ?thesis using zero d lt by (simp add: day_spellings_def)
  next
    case one
    note d = is_digit19_facts(1,2) [OF one(2)]
    have lt: "d < 10" using is_digit_facts(2) [OF d(1)] one(3) by simp
    have "[dchar d] = [a]" using is_digit_facts(1) [OF d(1)] one(3) by simp
    then show ?thesis using one d lt by (simp add: day_spellings_def)
  next
    case space
    note d = is_digit19_facts(1,2) [OF space(2)]
    have lt: "d < 10" using is_digit_facts(2) [OF d(1)] space(3) by simp
    have "[CHR '' '', dchar d] = [CHR '' '', b]" using is_digit_facts(1) [OF d(1)] space(3) by simp
    then show ?thesis using space d lt by (simp add: day_spellings_def)
  qed
qed

text \<open>Nothing follows the day group, so the first branch that matches is taken.\<close>

lemma day_alternatives_complete:
  assumes d: "1 \<le> d" "d \<le> 31" and ds: "ds \<in> set (day_spellings d)"
  shows "\<exists>xs. day_alternatives ds = (d, []) # xs"
proof -
  from ds consider (two) "ds = two_digits d" | (one) "d < 10" "ds = [dchar d]"
    | (space) "d < 10" "ds = [CHR '' '', dchar d]"
    by (auto simp: day_spellings_def split: if_splits)
  then show ?thesis
  proof cases
    case two
    define a b where "a = d div 10" and "b = d mod 10"
    have ab: "d = 10 * a + b" "a \<le> 3" "b < 10" "a < 10" using d(2) by (simp_all add: a_def b_def)
    have ds': "ds = [dchar a, dchar b]" using two by (simp add: two_digits_def a_def b_def)
    note da = dchar_facts(1,2) [OF ab(4)] and db = dchar_facts(1,2) [OF ab(3)]
    consider "a = 0" | "a = 1 \<or> a = 2" | "a = 3" using ab(2) by linarith
    then show ?thesis
    proof cases
      case 1
      then have "1 \<le> b" using d(1) ab(1) by simp
      then have "is_digit19 (dchar b)" by (rule dchar_facts(3) [OF ab(3)])
      then show ?thesis
        unfolding ds' day_alternatives_def branch1_Cons branch2_Cons
        using 1 db ab(1) by (simp add: dchar_small char_consts int2_def digit_small)
    next
      case 2
      then have "is_digit (dchar a) \<and> 1 \<le> digit (dchar a) \<and> digit (dchar a) \<le> 2"
        using da by auto
      then have "dchar a \<in> set ''12''" by (simp only: in_12)
      moreover have "dchar a \<noteq> CHR ''3''" using 2 da(2) digit_small(4) by force
      ultimately show ?thesis
        unfolding ds' day_alternatives_def branch1_Cons branch2_Cons
        using da db ab(1) by (simp add: int2_def)
    next
      case 3
      then have "b \<le> 1" using d(2) ab(1) by simp
      then have "is_digit (dchar b) \<and> digit (dchar b) \<le> 1" using db by simp
      then have "dchar b \<in> set ''01''" by (simp only: in_01)
      then show ?thesis
        unfolding ds' day_alternatives_def branch1_Cons branch2_Cons
        using 3 db ab(1) by (simp add: dchar_small int2_def digit_small)
    qed
  next
    case one
    have b: "is_digit19 (dchar d)" using dchar_facts(3) [OF one(1)] d(1) by simp
    show ?thesis
      unfolding one(2) day_alternatives_def branch1_Cons branch2_short
      using b dchar_facts(2) [OF one(1)] by simp
  next
    case space
    have b: "is_digit19 (dchar d)" using dchar_facts(3) [OF space(1)] d(1) by simp
    show ?thesis
      unfolding space(2) day_alternatives_def branch1_Cons branch2_Cons
      using b dchar_facts(2) [OF space(1)] by (simp add: char_consts int_second_def)
  qed
qed


subsection \<open>The whole pattern\<close>

lemma first_match_Some:
  "first_match k xs = Some v \<Longrightarrow> \<exists>x\<in>set xs. k x = Some v"
  by (induction xs) (auto split: option.splits)

lemma spellings_mem:
  "sp \<in> set (spellings (y, m, d)) \<longleftrightarrow>
     (\<exists>ms\<in>set (month_spellings m). \<exists>ds\<in>set (day_spellings d).
        sp = digits4 y @ CHR ''-'' # ms @ CHR ''-'' # ds)"
  by (auto simp: spellings_def)

lemma match_format_sound:
  assumes "match_format s = Some ((y, m, d), r)"
  shows "in_pattern_range (y, m, d) \<and> (\<exists>sp\<in>set (spellings (y, m, d)). s = sp @ r)"
proof -
  let ?day = "\<lambda>y m. \<lambda>(d, r5). Some ((y, m, d), r5)"
  let ?month = "\<lambda>y. \<lambda>(m, r3). case r3 of [] \<Rightarrow> None
      | c2 # r4 \<Rightarrow> if c2 \<noteq> CHR ''-'' then None else first_match (?day y m) (day_alternatives r4)"
  from assms obtain y' r2 where yr: "match_year s = Some (y', CHR ''-'' # r2)"
    and fm: "first_match (?month y') (month_alternatives r2) = Some ((y, m, d), r)"
    by (auto simp: match_format_def split: option.splits list.splits if_splits)
  from first_match_Some [OF fm] obtain m' r3 where
    mem_m: "(m', r3) \<in> set (month_alternatives r2)" and km: "?month y' (m', r3) = Some ((y, m, d), r)"
    by auto
  from km obtain r4 where r3: "r3 = CHR ''-'' # r4"
    and fd: "first_match (?day y' m') (day_alternatives r4) = Some ((y, m, d), r)"
    by (auto split: list.splits if_splits)
  from first_match_Some [OF fd] obtain d' r5 where
    mem_d: "(d', r5) \<in> set (day_alternatives r4)" and kd: "?day y' m' (d', r5) = Some ((y, m, d), r)"
    by auto
  from kd have eq: "y' = y" "m' = m" "d' = d" "r5 = r" by simp_all
  from match_year_sound [OF yr] have y: "y \<le> 9999" and s: "s = digits4 y @ CHR ''-'' # r2"
    by (simp_all add: eq)
  from month_alternatives_sound [OF mem_m] obtain ms where
    m: "1 \<le> m" "m \<le> 12" and ms: "ms \<in> set (month_spellings m)" "r2 = ms @ CHR ''-'' # r4"
    by (auto simp: eq r3)
  from day_alternatives_sound [OF mem_d] obtain ds where
    d: "1 \<le> d" "d \<le> 31" and ds: "ds \<in> set (day_spellings d)" "r4 = ds @ r"
    by (auto simp: eq)
  have "digits4 y @ CHR ''-'' # ms @ CHR ''-'' # ds \<in> set (spellings (y, m, d))"
    using ms(1) ds(1) unfolding spellings_mem by blast
  moreover have "s = (digits4 y @ CHR ''-'' # ms @ CHR ''-'' # ds) @ r"
    using s ms(2) ds(2) by simp
  ultimately show ?thesis using y m d by (auto simp: in_pattern_range_def)
qed

lemma match_format_complete:
  assumes range: "in_pattern_range (y, m, d)" and sp: "sp \<in> set (spellings (y, m, d))"
  shows "match_format sp = Some ((y, m, d), [])"
proof -
  from range have y: "y \<le> 9999" and m: "1 \<le> m" "m \<le> 12" and d: "1 \<le> d" "d \<le> 31"
    by (simp_all add: in_pattern_range_def)
  from sp obtain ms ds where ms: "ms \<in> set (month_spellings m)"
    and ds: "ds \<in> set (day_spellings d)" and s: "sp = digits4 y @ CHR ''-'' # ms @ CHR ''-'' # ds"
    unfolding spellings_mem by blast
  let ?day = "\<lambda>(d, r5). Some ((y, m, d), r5)"
  let ?month = "\<lambda>(m, r3). case r3 of [] \<Rightarrow> None
      | c2 # r4 \<Rightarrow> if c2 \<noteq> CHR ''-'' then None
                  else first_match (\<lambda>(d, r5). Some ((y, m, d), r5)) (day_alternatives r4)"
  have "first_match ?month (month_alternatives (ms @ CHR ''-'' # ds)) = ?month (m, CHR ''-'' # ds)"
    by (rule month_alternatives_complete [OF m ms]) simp
  also have "\<dots> = first_match ?day (day_alternatives ds)" by simp
  also have "\<dots> = Some ((y, m, d), [])"
    using day_alternatives_complete [OF d ds] by auto
  finally have "first_match ?month (month_alternatives (ms @ CHR ''-'' # ds)) = Some ((y, m, d), [])" .
  then show ?thesis
    unfolding match_format_def s by (simp add: match_year_complete [OF y])
qed

subsection \<open>Strict strings\<close>

lemma strict_form_Cons:
  "strict_form [c0, c1, c2, c3, c4, c5, c6, c7, c8, c9] \<longleftrightarrow>
     c4 = CHR ''-'' \<and> c7 = CHR ''-'' \<and> is_digit c0 \<and> is_digit c1 \<and> is_digit c2 \<and> is_digit c3 \<and>
     is_digit c5 \<and> is_digit c6 \<and> is_digit c8 \<and> is_digit c9"
  by (simp add: strict_form_def)

lemma ymd_of_Cons:
  "ymd_of [c0, c1, c2, c3, c4, c5, c6, c7, c8, c9]
     = (decimal [c0, c1, c2, c3], decimal [c5, c6], decimal [c8, c9])"
  by (simp add: ymd_of_def)

lemma decimal2: "decimal [a, b] = 10 * digit a + digit b"
  by (simp add: decimal_def)

lemma decimal4: "decimal [a, b, c, e] = 1000 * digit a + 100 * digit b + 10 * digit c + digit e"
  by (simp add: decimal_def)

lemma strict_form_spelling:
  assumes "strict_form s"
  shows "s \<in> set (spellings (ymd_of s))"
proof -
  from assms have len: "length s = 10" by (simp add: strict_form_def)
  then obtain a b c e h1 m1 m2 h2 d1 d2 where s': "s = [a, b, c, e, h1, m1, m2, h2, d1, d2]"
    by (auto simp: eval_nat_numeral length_Suc_conv)
  from assms have parts: "h1 = CHR ''-'' \<and> h2 = CHR ''-'' \<and> is_digit a \<and> is_digit b \<and> is_digit c \<and>
      is_digit e \<and> is_digit m1 \<and> is_digit m2 \<and> is_digit d1 \<and> is_digit d2"
    unfolding s' by (simp only: strict_form_Cons)
  then have dig: "is_digit a" "is_digit b" "is_digit c" "is_digit e"
      "is_digit m1" "is_digit m2" "is_digit d1" "is_digit d2"
    by simp_all
  have s: "s = [a, b, c, e, CHR ''-'', m1, m2, CHR ''-'', d1, d2]"
    using s' parts by simp
  define y m d where "y = 1000 * digit a + 100 * digit b + 10 * digit c + digit e"
    and "m = 10 * digit m1 + digit m2" and "d = 10 * digit d1 + digit d2"
  have ymd: "ymd_of s = (y, m, d)"
    unfolding s y_def m_def d_def by (simp only: ymd_of_Cons decimal2 decimal4)
  note lt = is_digit_facts(2) [OF dig(1)] is_digit_facts(2) [OF dig(2)]
    is_digit_facts(2) [OF dig(3)] is_digit_facts(2) [OF dig(4)]
  have y4: "digits4 y = [a, b, c, e]"
    unfolding digits4_def y_def
    by (simp only: year_digits(1-4) [OF lt] is_digit_facts(1) [OF dig(1)] is_digit_facts(1) [OF dig(2)]
        is_digit_facts(1) [OF dig(3)] is_digit_facts(1) [OF dig(4)])
  have m2: "two_digits m = [m1, m2]"
    unfolding m_def
    using two_digits_tens [OF is_digit_facts(2) [OF dig(5)] is_digit_facts(2) [OF dig(6)]]
    by (simp add: is_digit_facts(1) [OF dig(5)] is_digit_facts(1) [OF dig(6)])
  have d2: "two_digits d = [d1, d2]"
    unfolding d_def
    using two_digits_tens [OF is_digit_facts(2) [OF dig(7)] is_digit_facts(2) [OF dig(8)]]
    by (simp add: is_digit_facts(1) [OF dig(7)] is_digit_facts(1) [OF dig(8)])
  have seq: "s = digits4 y @ CHR ''-'' # two_digits m @ CHR ''-'' # two_digits d"
    unfolding y4 m2 d2 s by (simp only: append.simps)
  have mm: "two_digits m \<in> set (month_spellings m)" by (simp add: month_spellings_def)
  have dd: "two_digits d \<in> set (day_spellings d)" by (simp add: day_spellings_def)
  show ?thesis
    unfolding ymd spellings_mem by (rule bexI [OF _ mm], rule bexI [OF _ dd], rule seq)
qed


subsection \<open>\<open>strptime\<close> and \<open>validate_date\<close>\<close>

lemma days_in_month_bounds: "1 \<le> days_in_month y m \<and> days_in_month y m \<le> 31"
  by (simp add: days_in_month_def)

lemma valid_in_pattern_range: "valid_calendar_date ymd \<Longrightarrow> in_pattern_range ymd"
proof -
  assume v: "valid_calendar_date ymd"
  obtain y m d where ymd: "ymd = (y, m, d)" by (cases ymd) auto
  show ?thesis
    using v days_in_month_bounds [of y m]
    unfolding ymd valid_calendar_date_def in_pattern_range_def by simp
qed

lemma strptime_spelling:
  assumes "valid_calendar_date (y, m, d)" and "s \<in> set (spellings (y, m, d))"
  shows "strptime s =
           Inr \<lparr>year = y, month = m, day = d, hour = 0, minute = 0, second = 0, tzinfo = None\<rparr>"
  using match_format_complete [OF valid_in_pattern_range [OF assms(1)] assms(2)] assms(1)
  by (simp add: strptime_def)

lemma strptime_Inr:
  assumes "strptime s = Inr parsed"
  shows "\<exists>y m d. valid_calendar_date (y, m, d) \<and> s \<in> set (spellings (y, m, d)) \<and>
           parsed = \<lparr>year = y, month = m, day = d, hour = 0, minute = 0, second = 0, tzinfo = None\<rparr>"
proof -
  from assms obtain y m d where mf: "match_format s = Some ((y, m, d), [])"
    and v: "valid_calendar_date (y, m, d)"
    and p: "parsed = \<lparr>year = y, month = m, day = d, hour = 0, minute = 0, second = 0, tzinfo = None\<rparr>"
    by (auto simp: strptime_def split: option.splits if_splits)
  from match_format_sound [OF mf] have "s \<in> set (spellings (y, m, d))" by simp
  then show ?thesis using v p by blast
qed

lemma validate_date_spelling:
  assumes "valid_calendar_date ymd" and "s \<in> set (spellings ymd)"
  shows "validate_date today s =
           (if date_gt ymd today then Inl DateInFuture else Inr (utc_midnight ymd))"
proof -
  obtain y m d where ymd: "ymd = (y, m, d)" by (cases ymd) auto
  show ?thesis
    using strptime_spelling [OF assms [unfolded ymd]]
    unfolding ymd by (simp add: validate_date_def Let_def date_of_def utc_midnight_def)
qed

lemma validate_date_parsed:
  assumes "validate_date today s = Inr dt \<or> validate_date today s = Inl DateInFuture"
  shows "\<exists>ymd. valid_calendar_date ymd \<and> s \<in> set (spellings ymd) \<and>
           validate_date today s =
             (if date_gt ymd today then Inl DateInFuture else Inr (utc_midnight ymd))"
proof -
  from assms obtain parsed where "strptime s = Inr parsed"
    by (auto simp: validate_date_def split: sum.splits if_splits)
  from strptime_Inr [OF this] obtain y m d where
    v: "valid_calendar_date (y, m, d)" and sp: "s \<in> set (spellings (y, m, d))"
    by blast
  show ?thesis using validate_date_spelling [OF v sp] v sp by blast
qed

lemma validate_date_no_match:
  assumes "\<forall>ymd sp r. in_pattern_range ymd \<and> sp \<in> set (spellings ymd) \<longrightarrow> s \<noteq> sp @ r"
  shows "validate_date today s = Inl InvalidDateFormat"
proof (cases "match_format s")
  case None
  then show ?thesis by (simp add: validate_date_def strptime_def)
next
  case (Some res)
  obtain y m d r where res: "res = ((y, m, d), r)" by (cases res) auto
  from match_format_sound [OF Some [unfolded res]] assms have False by blast
  then show ?thesis ..
qed

lemma spelling_length: "sp \<in> set (spellings ymd) \<Longrightarrow> 8 \<le> length sp"
proof -
  assume a: "sp \<in> set (spellings ymd)"
  obtain y m d where ymd: "ymd = (y, m, d)" by (cases ymd) auto
  from a obtain ms ds where ms: "ms \<in> set (month_spellings m)" and ds: "ds \<in> set (day_spellings d)"
    and sp: "sp = digits4 y @ CHR ''-'' # ms @ CHR ''-'' # ds"
    unfolding ymd spellings_mem by blast
  have "1 \<le> length ms" using ms by (auto simp: month_spellings_def two_digits_def split: if_splits)
  moreover have "1 \<le> length ds" using ds by (auto simp: day_spellings_def two_digits_def split: if_splits)
  ultimately show ?thesis unfolding sp by (simp add: digits4_def)
qed

lemma date_gt_next_day: "date_gt (next_day ymd) ymd"
proof -
  obtain y m d where ymd: "ymd = (y, m, d)" by (cases ymd) auto
  show ?thesis unfolding ymd by (simp add: next_day_def)
qed

text \<open>
  A string in the strict form that names no calendar date matches the pattern, and the
  date constructor refuses it: the message has no \<open>time data\<close> in it, so the handler
  raises the error of \<open>strptime\<close> again and not the one about the format.
\<close>

lemma validate_date_feb_30:
  "validate_date (2024, 6, 1) ''2024-02-30'' = Inl (Reraised OutOfRange)"
  by code_simp

text \<open>
  Claim C6, as amended. \<open>validate_date\<close> accepts a string exactly when it spells a valid
  calendar date that is not after today, in one of the spellings of the pattern
  \<open>%Y-%m-%d\<close>: four digits, a hyphen, the month with two digits or (below 10) with one, a
  hyphen, the day with two digits or (below 10) with one digit or a space and one digit.
  It returns that date at midnight, UTC, and fails on every other string. The strict form
  \<open>YYYY-MM-DD\<close> is one of the spellings. The failure is \<open>InvalidDateFormat\<close> whenever the
  string does not start with a spelling of any year, month and day in the ranges of the
  pattern.
\<close>

theorem validate_date_accepts:
  "(validate_date today s = Inr dt \<longleftrightarrow>
      (\<exists>ymd. valid_calendar_date ymd \<and> \<not> date_gt ymd today \<and> s \<in> set (spellings ymd) \<and>
             dt = utc_midnight ymd)) \<and>
   (strict_form s \<longrightarrow> s \<in> set (spellings (ymd_of s))) \<and>
   ((\<forall>ymd sp r. in_pattern_range ymd \<and> sp \<in> set (spellings ymd) \<longrightarrow> s \<noteq> sp @ r) \<longrightarrow>
      validate_date today s = Inl InvalidDateFormat)"
proof -
  have accept: "validate_date today s = Inr dt \<longleftrightarrow>
      (\<exists>ymd. valid_calendar_date ymd \<and> \<not> date_gt ymd today \<and> s \<in> set (spellings ymd) \<and>
             dt = utc_midnight ymd)"
  proof
    assume a: "validate_date today s = Inr dt"
    then obtain ymd where v: "valid_calendar_date ymd" and sp: "s \<in> set (spellings ymd)"
      and r: "validate_date today s =
             (if date_gt ymd today then Inl DateInFuture else Inr (utc_midnight ymd))"
      using validate_date_parsed [of today s dt] by blast
    from a r have "\<not> date_gt ymd today \<and> dt = utc_midnight ymd" by (auto split: if_splits)
    then show "\<exists>ymd. valid_calendar_date ymd \<and> \<not> date_gt ymd today \<and> s \<in> set (spellings ymd) \<and>
             dt = utc_midnight ymd"
      using v sp by blast
  next
    assume "\<exists>ymd. valid_calendar_date ymd \<and> \<not> date_gt ymd today \<and> s \<in> set (spellings ymd) \<and>
             dt = utc_midnight ymd"
    then obtain ymd where v: "valid_calendar_date ymd" and sp: "s \<in> set (spellings ymd)"
      and n: "\<not> date_gt ymd today" and dt: "dt = utc_midnight ymd" by blast
    show "validate_date today s = Inr dt"
      using validate_date_spelling [OF v sp, of today] n dt by simp
  qed
  show ?thesis
    using accept strict_form_spelling [of s] validate_date_no_match [of s today] by blast
qed

text \<open>
  With 1 June 2024 as today: the strict \<open>2024-01-05\<close> is accepted, and \<open>today\<close>, which
  starts with no spelling of a date, fails with \<open>InvalidDateFormat\<close>.
\<close>

theorem validate_date_accepts_witness:
  "strict_form ''2024-01-05'' \<and> ''2024-01-05'' \<in> set (spellings (ymd_of ''2024-01-05'')) \<and>
   validate_date (2024, 6, 1) ''2024-01-05'' = Inr (utc_midnight (2024, 1, 5)) \<and>
   validate_date (2024, 6, 1) ''today'' = Inl InvalidDateFormat"
proof -
  have strict: "strict_form ''2024-01-05''" by (simp add: strict_form_Cons char_consts is_digit_def)
  have ymd: "ymd_of ''2024-01-05'' = (2024, 1, 5)"
    by (simp add: ymd_of_Cons decimal2 decimal4 digit_def)
  have v: "valid_calendar_date (2024, 1, 5)" by (simp add: valid_calendar_date_def days_in_month_def)
  have n: "\<not> date_gt (2024, 1, 5) (2024, 6, 1)" by simp
  have no_prefix: "\<forall>ymd sp r. in_pattern_range ymd \<and> sp \<in> set (spellings ymd) \<longrightarrow> ''today'' \<noteq> sp @ r"
  proof (intro allI impI notI)
    fix ymd sp r assume a: "in_pattern_range ymd \<and> sp \<in> set (spellings ymd)" and e: "''today'' = sp @ r"
    have "length (sp @ r) = 5" unfolding e [symmetric] by simp
    then have "length sp \<le> 5" by simp
    then show False using spelling_length [of sp ymd] a by simp
  qed
  note t = validate_date_accepts [of "(2024, 6, 1)" "''2024-01-05''" "utc_midnight (2024, 1, 5)"]
  have sp: "''2024-01-05'' \<in> set (spellings (ymd_of ''2024-01-05''))" using t strict by blast
  then have "validate_date (2024, 6, 1) ''2024-01-05'' = Inr (utc_midnight (2024, 1, 5))"
    using t v n unfolding ymd by blast
  moreover have "validate_date (2024, 6, 1) ''today'' = Inl InvalidDateFormat"
    using no_prefix validate_date_accepts [of "(2024, 6, 1)" "''today''"] by blast
  ultimately show ?thesis using strict sp by simp
qed

text \<open>
  Claim C6 as stated fails on \<open>2024-1-5\<close>, which is not in the strict form and is
  accepted (with 1 June 2024 as today): the claim has it fail with \<open>InvalidDateFormat\<close>.
\<close>

theorem validate_date_accepts_counterexample:
  "\<not> strict_form ''2024-1-5'' \<and>
   validate_date (2024, 6, 1) ''2024-1-5'' = Inr (utc_midnight (2024, 1, 5))"
proof -
  have "\<not> strict_form ''2024-1-5''" by (simp add: strict_form_def)
  moreover have "validate_date (2024, 6, 1) ''2024-1-5'' = Inr (utc_midnight (2024, 1, 5))"
    by code_simp
  ultimately show ?thesis by simp
qed


text \<open>
  Claim C7. \<open>validate_date\<close> fails with the future-date error exactly when the string
  spells a valid calendar date that is later than today. For a string in the strict form
  \<open>YYYY-MM-DD\<close> that names a valid calendar date: the error is raised exactly when that
  date is later than today, so it is raised for tomorrow, and today's date is accepted and
  returned at midnight, UTC.
\<close>

theorem validate_date_future:
  "(validate_date today s = Inl DateInFuture \<longleftrightarrow>
      (\<exists>ymd. valid_calendar_date ymd \<and> s \<in> set (spellings ymd) \<and> date_gt ymd today)) \<and>
   (strict_form s \<and> valid_calendar_date (ymd_of s) \<longrightarrow>
      (validate_date today s = Inl DateInFuture \<longleftrightarrow> date_gt (ymd_of s) today) \<and>
      (ymd_of s = next_day today \<longrightarrow> validate_date today s = Inl DateInFuture) \<and>
      (ymd_of s = today \<longrightarrow> validate_date today s = Inr (utc_midnight today)))"
proof -
  have general: "validate_date today s = Inl DateInFuture \<longleftrightarrow>
      (\<exists>ymd. valid_calendar_date ymd \<and> s \<in> set (spellings ymd) \<and> date_gt ymd today)"
  proof
    assume a: "validate_date today s = Inl DateInFuture"
    then obtain ymd where v: "valid_calendar_date ymd" and sp: "s \<in> set (spellings ymd)"
      and r: "validate_date today s =
             (if date_gt ymd today then Inl DateInFuture else Inr (utc_midnight ymd))"
      using validate_date_parsed [of today s] by blast
    from a r have "date_gt ymd today" by (auto split: if_splits)
    then show "\<exists>ymd. valid_calendar_date ymd \<and> s \<in> set (spellings ymd) \<and> date_gt ymd today"
      using v sp by blast
  next
    assume "\<exists>ymd. valid_calendar_date ymd \<and> s \<in> set (spellings ymd) \<and> date_gt ymd today"
    then obtain ymd where v: "valid_calendar_date ymd" and sp: "s \<in> set (spellings ymd)"
      and g: "date_gt ymd today" by blast
    show "validate_date today s = Inl DateInFuture"
      using validate_date_spelling [OF v sp, of today] g by simp
  qed
  have strict: "(validate_date today s = Inl DateInFuture \<longleftrightarrow> date_gt (ymd_of s) today) \<and>
      (ymd_of s = next_day today \<longrightarrow> validate_date today s = Inl DateInFuture) \<and>
      (ymd_of s = today \<longrightarrow> validate_date today s = Inr (utc_midnight today))"
    if st: "strict_form s" and v: "valid_calendar_date (ymd_of s)"
  proof -
    have r: "validate_date today s =
             (if date_gt (ymd_of s) today then Inl DateInFuture else Inr (utc_midnight (ymd_of s)))"
      by (rule validate_date_spelling [OF v strict_form_spelling [OF st]])
    have same: "\<not> date_gt today today" by (cases today) auto
    show ?thesis using r date_gt_next_day [of today] same by auto
  qed
  show ?thesis using general strict by blast
qed

text \<open>With 1 June 2024 as today: 2 June is refused, 1 June is accepted.\<close>

theorem validate_date_future_witness:
  "strict_form ''2024-06-02'' \<and> valid_calendar_date (ymd_of ''2024-06-02'') \<and>
   ymd_of ''2024-06-02'' = next_day (2024, 6, 1) \<and>
   validate_date (2024, 6, 1) ''2024-06-02'' = Inl DateInFuture \<and>
   strict_form ''2024-06-01'' \<and> valid_calendar_date (ymd_of ''2024-06-01'') \<and>
   ymd_of ''2024-06-01'' = (2024, 6, 1) \<and>
   validate_date (2024, 6, 1) ''2024-06-01'' = Inr (utc_midnight (2024, 6, 1))"
proof -
  have st2: "strict_form ''2024-06-02''" and st1: "strict_form ''2024-06-01''"
    by (simp_all add: strict_form_Cons char_consts is_digit_def)
  have y2: "ymd_of ''2024-06-02'' = (2024, 6, 2)" and y1: "ymd_of ''2024-06-01'' = (2024, 6, 1)"
    by (simp_all add: ymd_of_Cons decimal2 decimal4 digit_def)
  have v2: "valid_calendar_date (ymd_of ''2024-06-02'')" and v1: "valid_calendar_date (ymd_of ''2024-06-01'')"
    unfolding y1 y2 by (simp_all add: valid_calendar_date_def days_in_month_def)
  have nd: "ymd_of ''2024-06-02'' = next_day (2024, 6, 1)"
    unfolding y2 by (simp add: next_day_def days_in_month_def)
  have "validate_date (2024, 6, 1) ''2024-06-02'' = Inl DateInFuture"
    using validate_date_future [of "(2024, 6, 1)" "''2024-06-02''"] st2 v2 nd by blast
  moreover have "validate_date (2024, 6, 1) ''2024-06-01'' = Inr (utc_midnight (2024, 6, 1))"
    using validate_date_future [of "(2024, 6, 1)" "''2024-06-01''"] st1 v1 y1 by blast
  ultimately show ?thesis using st1 st2 v1 v2 nd y1 by simp
qed

end
